theory Spec2Isabelle
  imports Complex_Main "HOL-Library.Multiset"
begin

section \<open>CSR sparse matrix-vector multiplication (src/csrpar.cpp, src/csrseq.cpp)\<close>

text \<open>
  The two programs share the data types, the comparison function, the COO to CSR
  conversion and the sequential kernel; \<open>csrpar.cpp\<close> adds the OpenMP kernel and the
  parsing of the schedule and thread arguments.

  Conventions of the embedding.
  \<^item> A C++ \<open>int\<close> is an \<open>int\<close>, and \<open>INT_MIN\<close> and \<open>INT_MAX\<close> are the least and the
    largest value of the 32-bit type. The sums the programs compute that can leave the
    type are \<open>rows + 1\<close>, in the allocation of \<open>row_ptr\<close>, and \<open>r - 1\<close> and \<open>c - 1\<close>, on
    the indices read from the file: for \<open>rows = INT_MAX\<close>, and for \<open>r = INT_MIN\<close> or
    \<open>c = INT_MIN\<close>, they overflow, which is undefined behaviour in C++, and the model
    stops there with the fault \<open>SignedOverflow\<close>. Every other sum is an increment of a
    loop counter below a bound that is an \<open>int\<close> (\<open>i < nnz\<close>, \<open>i < rows\<close>, \<open>j < row_end\<close>,
    \<open>current_row < row\<close>, and \<open>i \<le> rows\<close> once \<open>rows + 1\<close> is known to be an \<open>int\<close>), and
    stays in the type.
  \<^item> A C++ \<open>double\<close> is a value of a type \<open>'d\<close> of the syntactic classes \<open>zero\<close>,
    \<open>plus\<close> and \<open>times\<close>. These classes carry no law: nothing is assumed about
    \<open>+\<close> and \<open>*\<close> (no associativity, no commutativity, no neutral element), so
    that every statement proved for \<open>'d\<close> holds for binary64 with its rounding.
    Equality on \<open>'d\<close> is identity of the representation.
  \<^item> An access through \<open>operator[]\<close> or a raw pointer outside the array is undefined
    behaviour in C++; the model stops there with the fault \<open>OutOfBounds\<close>. A
    \<open>std::vector\<close> asked for a negative number of elements throws; the model stops
    with \<open>AllocFailure\<close>. Memory is taken to suffice for every other allocation.
\<close>

subsection \<open>Data\<close>

record 'd Triplet =
  row :: int
  col :: int
  val :: 'd

record 'd CsrMatrix =
  rows :: int
  cols :: int
  nnz :: int
  row_ptr :: "int list"
  col_ind :: "int list"
  vals :: "'d list"

datatype fault = OutOfBounds | AllocFailure | SignedOverflow

definition INT_MAX :: int where
  "INT_MAX = 2147483647"

definition INT_MIN :: int where
  "INT_MIN = - 2147483648"

definition compareTriplets :: "'d Triplet \<Rightarrow> 'd Triplet \<Rightarrow> bool" where
  "compareTriplets a b =
     (if row a < row b then True
      else if row a = row b then col a < col b
      else False)"

subsection \<open>Array accesses\<close>

definition rd :: "'a list \<Rightarrow> int \<Rightarrow> fault + 'a" where
  "rd xs i = (if 0 \<le> i \<and> i < int (length xs) then Inr (xs ! nat i) else Inl OutOfBounds)"

definition wr :: "'a list \<Rightarrow> int \<Rightarrow> 'a \<Rightarrow> fault + 'a list" where
  "wr xs i x = (if 0 \<le> i \<and> i < int (length xs) then Inr (xs[nat i := x]) else Inl OutOfBounds)"

definition alloc :: "int \<Rightarrow> 'a \<Rightarrow> fault + 'a list" where
  "alloc n x = (if n < 0 then Inl AllocFailure else Inr (replicate (nat n) x))"

subsection \<open>The kernels\<close>

text \<open>
  The inner loop of both kernels:
  \<^verbatim>\<open>for (int j = row_start; j < row_end; ++j) sum += values[j] * v_in[col_ind[j]];\<close>
\<close>

function row_sum :: "('d::{zero,plus,times}) CsrMatrix \<Rightarrow> 'd list \<Rightarrow> int \<Rightarrow> int \<Rightarrow> 'd \<Rightarrow> fault + 'd" where
  "row_sum A v j row_end s =
     (if j < row_end then
        (case rd (vals A) j of Inl e \<Rightarrow> Inl e | Inr a \<Rightarrow>
         (case rd (col_ind A) j of Inl e \<Rightarrow> Inl e | Inr cj \<Rightarrow>
          (case rd v cj of Inl e \<Rightarrow> Inl e | Inr b \<Rightarrow>
             row_sum A v (j + 1) row_end (s + a * b))))
      else Inr s)"
  by pat_completeness auto
termination
  by (relation "measure (\<lambda>(A, v, j, row_end, s). nat (row_end - j))") auto

text \<open>
  The body of the loop over the rows, the same text in both kernels: it reads
  \<open>row_ptr[i]\<close> and \<open>row_ptr[i + 1]\<close>, runs the inner loop from \<open>0.0\<close> and stores
  the sum in \<open>c_out[i]\<close>.
\<close>

definition row_body :: "('d::{zero,plus,times}) CsrMatrix \<Rightarrow> 'd list \<Rightarrow> int \<Rightarrow> 'd list \<Rightarrow> fault + 'd list" where
  "row_body A v i c =
     (case rd (row_ptr A) i of Inl e \<Rightarrow> Inl e | Inr row_start \<Rightarrow>
      (case rd (row_ptr A) (i + 1) of Inl e \<Rightarrow> Inl e | Inr row_end \<Rightarrow>
       (case row_sum A v row_start row_end 0 of Inl e \<Rightarrow> Inl e | Inr s \<Rightarrow>
          wr c i s)))"

function seq_rows :: "('d::{zero,plus,times}) CsrMatrix \<Rightarrow> 'd list \<Rightarrow> int \<Rightarrow> 'd list \<Rightarrow> fault + 'd list" where
  "seq_rows A v i c =
     (if i < rows A then
        (case row_body A v i c of Inl e \<Rightarrow> Inl e | Inr c' \<Rightarrow> seq_rows A v (i + 1) c')
      else Inr c)"
  by pat_completeness auto
termination
  by (relation "measure (\<lambda>(A, v, i, c). nat (rows A - i))") auto

definition spmv_csr_sequential :: "('d::{zero,plus,times}) CsrMatrix \<Rightarrow> 'd list \<Rightarrow> 'd list \<Rightarrow> fault + 'd list" where
  "spmv_csr_sequential A v c = seq_rows A v 0 c"

text \<open>
  The parallel kernel runs the same body under
  \<^verbatim>\<open>#pragma omp parallel for schedule(runtime)\<close>.
  OpenMP runs every iteration \<open>i\<close> of \<open>[0, rows)\<close> exactly once, on some thread; the
  number of threads, the schedule kind and the chunk size decide which thread runs
  which iteration and when. An iteration reads \<open>A\<close> and \<open>v\<close>, which no iteration
  writes, and writes only its own \<open>c_out[i]\<close>, so an execution is determined by the
  order in which the iterations take effect: a list \<open>order\<close> holding every row index
  once. The kernel is modelled for a given such order.
\<close>

definition omp_for_order :: "int \<Rightarrow> int list \<Rightarrow> bool" where
  "omp_for_order n order = (mset order = mset [0..n - 1])"

fun par_rows :: "('d::{zero,plus,times}) CsrMatrix \<Rightarrow> 'd list \<Rightarrow> int list \<Rightarrow> 'd list \<Rightarrow> fault + 'd list" where
  "par_rows A v [] c = Inr c"
| "par_rows A v (i # order) c =
     (case row_body A v i c of Inl e \<Rightarrow> Inl e | Inr c' \<Rightarrow> par_rows A v order c')"

definition spmv_csr_parallel :: "int list \<Rightarrow> ('d::{zero,plus,times}) CsrMatrix \<Rightarrow> 'd list \<Rightarrow> 'd list \<Rightarrow> fault + 'd list" where
  "spmv_csr_parallel order A v c = par_rows A v order c"

text \<open>
  \<open>main\<close> allocates the output as \<^verbatim>\<open>vector<double> c_output(rows, 0.0)\<close> and hands it
  to the kernel; the two functions below are that allocation followed by the call.
\<close>

definition multiply_sequential :: "('d::{zero,plus,times}) CsrMatrix \<Rightarrow> 'd list \<Rightarrow> fault + 'd list" where
  "multiply_sequential A v =
     (case alloc (rows A) 0 of Inl e \<Rightarrow> Inl e | Inr c \<Rightarrow> spmv_csr_sequential A v c)"

definition multiply_parallel :: "int list \<Rightarrow> ('d::{zero,plus,times}) CsrMatrix \<Rightarrow> 'd list \<Rightarrow> fault + 'd list" where
  "multiply_parallel order A v =
     (case alloc (rows A) 0 of Inl e \<Rightarrow> Inl e | Inr c \<Rightarrow> spmv_csr_parallel order A v c)"

subsection \<open>COO to CSR\<close>

text \<open>
  \<^verbatim>\<open>sort(triplets.begin(), triplets.end(), compareTriplets)\<close>: \<open>std::sort\<close> returns
  a permutation of its input in which no element compares less than an earlier one, and
  leaves the order of equivalent elements open. \<open>std_sort_result ts s\<close> says that \<open>s\<close>
  is such a result for the input \<open>ts\<close>; the conversion is modelled on any \<open>s\<close>.
  \<open>sort_triplets\<close> is one sort that meets it (insertion from the right, which keeps
  equivalent elements in their order).
\<close>

definition std_sort_result :: "'d Triplet list \<Rightarrow> 'd Triplet list \<Rightarrow> bool" where
  "std_sort_result ts s =
     (mset s = mset ts \<and> sorted_wrt (\<lambda>a b. \<not> compareTriplets b a) s)"

fun insert_triplet :: "'d Triplet \<Rightarrow> 'd Triplet list \<Rightarrow> 'd Triplet list" where
  "insert_triplet t [] = [t]"
| "insert_triplet t (x # xs) =
     (if compareTriplets x t then x # insert_triplet t xs else t # x # xs)"

definition sort_triplets :: "'d Triplet list \<Rightarrow> 'd Triplet list" where
  "sort_triplets ts = foldr insert_triplet ts []"

text \<open>
  The inner loop of the scan:
  \<^verbatim>\<open>while (current_row < triplets[i].row) { ++current_row; csr.row_ptr[current_row] = i; }\<close>
\<close>

function backfill :: "int \<Rightarrow> int \<Rightarrow> int \<Rightarrow> int list \<Rightarrow> fault + (int \<times> int list)" where
  "backfill target i current_row rp =
     (if current_row < target then
        (case wr rp (current_row + 1) i of Inl e \<Rightarrow> Inl e
         | Inr rp' \<Rightarrow> backfill target i (current_row + 1) rp')
      else Inr (current_row, rp))"
  by pat_completeness auto
termination
  by (relation "measure (\<lambda>(target, i, current_row, rp). nat (target - current_row))") auto

text \<open>
  The scan \<^verbatim>\<open>for (int i = 0; i < nnz; ++i)\<close> over the sorted triplets, \<open>nnz\<close> being
  their number: the list argument holds \<open>triplets[i]\<close>, \<open>triplets[i + 1]\<close>, ...
\<close>

fun scan :: "'d Triplet list \<Rightarrow> int \<Rightarrow> int \<Rightarrow> 'd CsrMatrix \<Rightarrow> fault + (int \<times> 'd CsrMatrix)" where
  "scan [] i current_row csr = Inr (current_row, csr)"
| "scan (t # ts) i current_row csr =
     (case wr (col_ind csr) i (col t) of Inl e \<Rightarrow> Inl e | Inr ci \<Rightarrow>
      (case wr (vals csr) i (val t) of Inl e \<Rightarrow> Inl e | Inr vs \<Rightarrow>
       (case backfill (row t) i current_row (row_ptr csr) of Inl e \<Rightarrow> Inl e
        | Inr (current_row', rp) \<Rightarrow>
            scan ts (i + 1) current_row' (csr\<lparr>row_ptr := rp, col_ind := ci, vals := vs\<rparr>))))"

text \<open>
  The loop after the scan:
  \<^verbatim>\<open>for (int i = current_row + 1; i <= rows; ++i) csr.row_ptr[i] = nnz;\<close>
\<close>

function fill_tail :: "int \<Rightarrow> int \<Rightarrow> int \<Rightarrow> int list \<Rightarrow> fault + int list" where
  "fill_tail i n_rows n_nnz rp =
     (if i \<le> n_rows then
        (case wr rp i n_nnz of Inl e \<Rightarrow> Inl e | Inr rp' \<Rightarrow> fill_tail (i + 1) n_rows n_nnz rp')
      else Inr rp)"
  by pat_completeness auto
termination
  by (relation "measure (\<lambda>(i, n_rows, n_nnz, rp). nat (n_rows + 1 - i))") auto

text \<open>
  The conversion of \<open>main\<close>, from the sorted triplets \<open>s\<close>: \<open>row_ptr.assign(rows + 1, 0)\<close>,
  \<open>col_ind.resize(nnz)\<close>, \<open>values.resize(nnz)\<close>, the scan and the final loop. \<open>nnz\<close>
  is the number of triplets: the reading loop of \<open>main\<close> pushes exactly \<open>nnz\<close> of
  them. The sum \<open>rows + 1\<close> is an \<open>int\<close> only for \<open>rows < INT_MAX\<close>.
\<close>

definition coo_to_csr :: "('d::zero) Triplet list \<Rightarrow> int \<Rightarrow> int \<Rightarrow> fault + 'd CsrMatrix" where
  "coo_to_csr s n_rows n_cols =
     (if INT_MAX \<le> n_rows then Inl SignedOverflow
      else
       (case alloc (n_rows + 1) 0 of Inl e \<Rightarrow> Inl e | Inr rp \<Rightarrow>
        (case alloc (int (length s)) 0 of Inl e \<Rightarrow> Inl e | Inr ci \<Rightarrow>
         (case alloc (int (length s)) 0 of Inl e \<Rightarrow> Inl e | Inr vs \<Rightarrow>
          (case scan s 0 0 \<lparr>rows = n_rows, cols = n_cols, nnz = int (length s),
                             row_ptr = rp, col_ind = ci, vals = vs\<rparr> of
             Inl e \<Rightarrow> Inl e
           | Inr (current_row, csr) \<Rightarrow>
              (case fill_tail (current_row + 1) n_rows (int (length s)) (row_ptr csr) of
                 Inl e \<Rightarrow> Inl e
               | Inr rp' \<Rightarrow> Inr (csr\<lparr>row_ptr := rp'\<rparr>)))))))"

definition build :: "('d::zero) Triplet list \<Rightarrow> int \<Rightarrow> int \<Rightarrow> fault + 'd CsrMatrix" where
  "build ts n_rows n_cols = coo_to_csr (sort_triplets ts) n_rows n_cols"

subsection \<open>The benchmark loop of \<open>main\<close>\<close>

text \<open>
  The part of \<open>main\<close> after the conversion, the same in both programs but for the kernel
  and the clock. Its variables are the fields of \<open>bench\<close>; \<open>calls\<close> and \<open>ticks\<close> are
  ghost fields that count the invocations of the kernel and the readings of the clock.
  What the program takes from its environment is a parameter:
  \<^item> \<open>kern k\<close> is the kernel as it runs at its invocation number \<open>k\<close>:
    \<open>spmv_csr_sequential\<close>, or \<open>spmv_csr_parallel\<close> with the iteration order of that
    invocation;
  \<^item> \<open>canon k\<close> is the canonical value, at least 0 and less than 1, that call number
    \<open>k\<close> of \<open>dist(gen)\<close> takes from the generator, and \<open>to_double\<close> the rounding of a real
    number to the \<open>double\<close> that stores it;
  \<^item> \<open>wtime k\<close> is reading number \<open>k\<close> of the clock, and \<open>elapsed_ms start stop\<close> the
    duration in milliseconds between two readings (\<^verbatim>\<open>(end - start) * 1000.0\<close> in
    \<open>csrpar.cpp\<close>, a \<^verbatim>\<open>chrono::duration<double, milli>\<close> in \<open>csrseq.cpp\<close>).
\<close>

text \<open>
  \<^verbatim>\<open>uniform_real_distribution<double> dist(-1000.0, 1000.0)\<close>: the distribution with the
  parameters \<open>a\<close> and \<open>b\<close> maps the canonical value \<open>u\<close> to \<open>a + (b - a) * u\<close>, and
  \<open>dist_gen to_double canon k\<close> is the \<open>double\<close> that call number \<open>k\<close> of \<open>dist(gen)\<close>
  returns.
\<close>

definition uniform_real_distribution :: "real \<Rightarrow> real \<Rightarrow> real \<Rightarrow> real" where
  "uniform_real_distribution a b u = a + (b - a) * u"

definition dist_gen :: "(real \<Rightarrow> 'd) \<Rightarrow> (nat \<Rightarrow> real) \<Rightarrow> nat \<Rightarrow> 'd" where
  "dist_gen to_double canon k = to_double (uniform_real_distribution (- 1000) 1000 (canon k))"

record 'd bench =
  csr :: "'d CsrMatrix"
  v_input :: "'d list"
  c_output :: "'d list"
  times_ms :: "'d list"
  calls :: nat
  ticks :: nat

type_synonym 'd kernel = "'d CsrMatrix \<Rightarrow> 'd list \<Rightarrow> 'd list \<Rightarrow> fault + 'd list"

text \<open>
  A call \<^verbatim>\<open>spmv_csr_parallel(csr, v_input, c_output)\<close>: the kernel takes the matrix and
  the input vector by reference to \<open>const\<close> and the output by reference.
\<close>

definition call_kernel :: "(nat \<Rightarrow> 'd kernel) \<Rightarrow> 'd bench \<Rightarrow> fault + 'd bench" where
  "call_kernel kern st =
     (case kern (calls st) (csr st) (v_input st) (c_output st) of Inl e \<Rightarrow> Inl e
      | Inr c \<Rightarrow> Inr (st\<lparr>c_output := c, calls := Suc (calls st)\<rparr>))"

text \<open>\<^verbatim>\<open>for (int i = 0; i < cols; ++i) v_input[i] = dist(gen);\<close>\<close>

function fill_random :: "(nat \<Rightarrow> 'd) \<Rightarrow> int \<Rightarrow> int \<Rightarrow> 'd list \<Rightarrow> fault + 'd list" where
  "fill_random draws n_cols i v =
     (if i < n_cols then
        (case wr v i (draws (nat i)) of Inl e \<Rightarrow> Inl e
         | Inr v' \<Rightarrow> fill_random draws n_cols (i + 1) v')
      else Inr v)"
  by pat_completeness auto
termination
  by (relation "measure (\<lambda>(draws, n_cols, i, v). nat (n_cols - i))") auto

text \<open>
  The timed loop \<^verbatim>\<open>for (int run = 0; run < NUM_RUNS; ++run)\<close>: a reading of the clock,
  a call of the kernel, a reading of the clock, and \<open>times_ms[run]\<close> is set.
\<close>

function timed_runs ::
  "(nat \<Rightarrow> 'd kernel) \<Rightarrow> (nat \<Rightarrow> 't) \<Rightarrow> ('t \<Rightarrow> 't \<Rightarrow> 'd) \<Rightarrow> int \<Rightarrow> int \<Rightarrow> 'd bench \<Rightarrow> fault + 'd bench" where
  "timed_runs kern wtime elapsed_ms num_runs run st =
     (if run < num_runs then
        (case call_kernel kern st of Inl e \<Rightarrow> Inl e
         | Inr st' \<Rightarrow>
            (case wr (times_ms st') run (elapsed_ms (wtime (ticks st)) (wtime (ticks st + 1))) of
               Inl e \<Rightarrow> Inl e
             | Inr tm \<Rightarrow>
                 timed_runs kern wtime elapsed_ms num_runs (run + 1)
                   (st'\<lparr>times_ms := tm, ticks := ticks st + 2\<rparr>)))
      else Inr st)"
  by pat_completeness auto
termination
  by (relation "measure (\<lambda>(kern, wtime, elapsed_ms, num_runs, run, st). nat (num_runs - run))") auto

text \<open>
  The whole: the input vector of length \<open>cols\<close> is allocated and filled, the output of
  length \<open>rows\<close> is allocated with zeros, the kernel runs once untimed, \<open>times_ms\<close> is
  allocated and the timed loop runs. \<open>main\<close> runs it with \<open>NUM_RUNS\<close> timed runs.
\<close>

definition benchmark ::
  "(nat \<Rightarrow> ('d::zero) kernel) \<Rightarrow> (real \<Rightarrow> 'd) \<Rightarrow> (nat \<Rightarrow> real) \<Rightarrow> (nat \<Rightarrow> 't) \<Rightarrow> ('t \<Rightarrow> 't \<Rightarrow> 'd)
     \<Rightarrow> int \<Rightarrow> 'd CsrMatrix \<Rightarrow> fault + 'd bench" where
  "benchmark kern to_double canon wtime elapsed_ms num_runs A =
     (case alloc (cols A) 0 of Inl e \<Rightarrow> Inl e | Inr v0 \<Rightarrow>
      (case fill_random (dist_gen to_double canon) (cols A) 0 v0 of Inl e \<Rightarrow> Inl e | Inr v \<Rightarrow>
       (case alloc (rows A) 0 of Inl e \<Rightarrow> Inl e | Inr c \<Rightarrow>
        (case call_kernel kern
                \<lparr>csr = A, v_input = v, c_output = c, times_ms = [], calls = 0, ticks = 0\<rparr> of
           Inl e \<Rightarrow> Inl e
         | Inr st \<Rightarrow>
            (case alloc num_runs 0 of Inl e \<Rightarrow> Inl e
             | Inr tm \<Rightarrow> timed_runs kern wtime elapsed_ms num_runs 0 (st\<lparr>times_ms := tm\<rparr>))))))"

definition NUM_RUNS :: int where
  "NUM_RUNS = 10"

subsection \<open>The arguments of \<open>csrpar.cpp\<close>\<close>

text \<open>
  \<open>main\<close> of \<open>csrpar.cpp\<close>, called with its four arguments, up to \<open>omp_set_schedule\<close>:
  \<open>schedule_str\<close> is \<open>argv[2]\<close>; \<open>chunk_arg\<close> and \<open>threads_arg\<close> are the results of
  \<open>stoi(argv[3])\<close> and \<open>stoi(argv[4])\<close>, \<open>None\<close> when \<open>stoi\<close> throws. Each error is a
  message on \<open>cerr\<close> and \<open>return 1\<close>. The configuration that is accepted goes to
  \<open>omp_set_num_threads\<close> and \<open>omp_set_schedule\<close> as it is.
\<close>

datatype omp_sched_t = omp_sched_static | omp_sched_dynamic | omp_sched_guided

datatype exit_error = NotInteger | InvalidSchedule | MatrixFileError

record omp_config =
  sched_kind :: omp_sched_t
  chunk_size :: int
  num_threads :: int

definition configure :: "string \<Rightarrow> int option \<Rightarrow> int option \<Rightarrow> exit_error + omp_config" where
  "configure schedule_str chunk_arg threads_arg =
     (case chunk_arg of None \<Rightarrow> Inl NotInteger | Some chunk \<Rightarrow>
      (case threads_arg of None \<Rightarrow> Inl NotInteger | Some threads \<Rightarrow>
         if schedule_str = ''static'' then
           Inr \<lparr>sched_kind = omp_sched_static, chunk_size = chunk, num_threads = threads\<rparr>
         else if schedule_str = ''dynamic'' then
           Inr \<lparr>sched_kind = omp_sched_dynamic, chunk_size = chunk, num_threads = threads\<rparr>
         else if schedule_str = ''guided'' then
           Inr \<lparr>sched_kind = omp_sched_guided, chunk_size = chunk, num_threads = threads\<rparr>
         else Inl InvalidSchedule))"

text \<open>
  The outcome of \<open>main\<close> when it does not reach its end: \<open>return 1\<close> after a message, or
  a fault.
\<close>

datatype stop = Exit exit_error | Crash fault

text \<open>
  The Matrix Market file: it cannot be opened, or it holds, after the comments, the
  header \<open>rows cols nnz\<close> and then the entries \<open>r c v\<close> that \<^verbatim>\<open>file >> r >> c >> v\<close>
  reads, one after the other, until a reading fails.
\<close>

datatype 'd mtx_file = CannotOpen | Mtx int int int "(int \<times> int \<times> 'd) list"

text \<open>
  The reading loop \<^verbatim>\<open>for (int i = 0; i < nnz; ++i)\<close>, with the number of iterations that
  are left: a reading that fails is a message and \<open>return 1\<close>; the indices of the file
  count from 1 and those of the triplets from 0.
\<close>

fun read_triplets :: "nat \<Rightarrow> (int \<times> int \<times> 'd) list \<Rightarrow> 'd Triplet list \<Rightarrow> stop + 'd Triplet list" where
  "read_triplets 0 entries triplets = Inr triplets"
| "read_triplets (Suc n) [] triplets = Inl (Exit MatrixFileError)"
| "read_triplets (Suc n) ((r, c, v) # entries) triplets =
     (if r \<le> INT_MIN \<or> c \<le> INT_MIN then Inl (Crash SignedOverflow)
      else read_triplets n entries (triplets @ [\<lparr>row = r - 1, col = c - 1, val = v\<rparr>]))"

text \<open>
  \<open>main\<close> of \<open>csrpar.cpp\<close> as a whole. \<open>std_sort\<close> is the sort; \<open>orders cfg k\<close> is the
  iteration order that the OpenMP runtime, set to the configuration \<open>cfg\<close>, gives
  invocation \<open>k\<close> of the kernel. \<open>triplets.reserve(nnz)\<close> throws for a negative \<open>nnz\<close>.
  The outcome is \<open>return 1\<close> with an error, a fault, or the final state, whose
  \<open>times_ms\<close> is printed.
\<close>

definition csrpar_main ::
  "string \<Rightarrow> int option \<Rightarrow> int option \<Rightarrow> ('d::{zero,plus,times}) mtx_file
     \<Rightarrow> ('d Triplet list \<Rightarrow> 'd Triplet list) \<Rightarrow> (omp_config \<Rightarrow> nat \<Rightarrow> int list)
     \<Rightarrow> (real \<Rightarrow> 'd) \<Rightarrow> (nat \<Rightarrow> real) \<Rightarrow> (nat \<Rightarrow> 't) \<Rightarrow> ('t \<Rightarrow> 't \<Rightarrow> 'd) \<Rightarrow> stop + 'd bench" where
  "csrpar_main schedule_str chunk_arg threads_arg file std_sort orders to_double canon wtime
       elapsed_ms =
     (case configure schedule_str chunk_arg threads_arg of Inl e \<Rightarrow> Inl (Exit e) | Inr cfg \<Rightarrow>
      (case file of CannotOpen \<Rightarrow> Inl (Exit MatrixFileError)
       | Mtx n_rows n_cols n_nnz entries \<Rightarrow>
          if n_nnz < 0 then Inl (Crash AllocFailure)
          else
           (case read_triplets (nat n_nnz) entries [] of Inl e \<Rightarrow> Inl e | Inr triplets \<Rightarrow>
            (case coo_to_csr (std_sort triplets) n_rows n_cols of Inl f \<Rightarrow> Inl (Crash f)
             | Inr A \<Rightarrow>
                (case benchmark (\<lambda>k. spmv_csr_parallel (orders cfg k)) to_double canon wtime
                        elapsed_ms NUM_RUNS A of
                   Inl f \<Rightarrow> Inl (Crash f)
                 | Inr st \<Rightarrow> Inr st)))))"

subsection \<open>What the specification asks of a matrix and of the input\<close>

text \<open>
  The invariants of a CSR matrix: the three arrays have the lengths \<open>rows + 1\<close>, \<open>nnz\<close>
  and \<open>nnz\<close>; \<open>row_ptr\<close> starts at 0, ends at \<open>nnz\<close> and never decreases; every column
  index lies in \<open>[0, cols)\<close>; the column indices of each row are in ascending order.
  \<open>row_slice A i\<close> is \<open>col_ind[row_ptr[i] .. row_ptr[i+1])\<close>.
\<close>

definition row_slice :: "'d CsrMatrix \<Rightarrow> nat \<Rightarrow> int list" where
  "row_slice A i =
     take (nat (row_ptr A ! Suc i) - nat (row_ptr A ! i)) (drop (nat (row_ptr A ! i)) (col_ind A))"

definition csr_invariants :: "'d CsrMatrix \<Rightarrow> bool" where
  "csr_invariants A =
     (0 \<le> rows A \<and> length (row_ptr A) = nat (rows A) + 1
      \<and> int (length (col_ind A)) = nnz A \<and> int (length (vals A)) = nnz A
      \<and> row_ptr A ! 0 = 0 \<and> row_ptr A ! nat (rows A) = nnz A
      \<and> sorted (row_ptr A)
      \<and> (\<forall>c\<in>set (col_ind A). 0 \<le> c \<and> c < cols A)
      \<and> (\<forall>i\<in>{0..<nat (rows A)}. sorted (row_slice A i)))"

text \<open>A valid triplet set: positive dimensions, every row and column index in range.\<close>

definition valid_input :: "'d Triplet list \<Rightarrow> int \<Rightarrow> int \<Rightarrow> bool" where
  "valid_input ts n_rows n_cols =
     (0 < n_rows \<and> 0 < n_cols
      \<and> (\<forall>t\<in>set ts. 0 \<le> row t \<and> row t < n_rows \<and> 0 \<le> col t \<and> col t < n_cols))"

text \<open>
  The sum the specification gives for row \<open>i\<close>: the products
  \<open>values[k] * v[col_ind[k]]\<close> for \<open>k\<close> from \<open>row_ptr[i]\<close> up to \<open>row_ptr[i+1] - 1\<close>,
  added one after the other, in this order, to \<open>0.0\<close>.
\<close>

definition row_dot :: "('d::{zero,plus,times}) CsrMatrix \<Rightarrow> 'd list \<Rightarrow> nat \<Rightarrow> 'd" where
  "row_dot A v i =
     foldl (\<lambda>s k. s + vals A ! k * v ! nat (col_ind A ! k)) 0
       [nat (row_ptr A ! i)..<nat (row_ptr A ! Suc i)]"

text \<open>The stored entries of row \<open>i\<close>, column index and value, in storage order.\<close>

definition row_entries :: "'d CsrMatrix \<Rightarrow> nat \<Rightarrow> (int \<times> 'd) list" where
  "row_entries A i =
     take (nat (row_ptr A ! Suc i) - nat (row_ptr A ! i))
       (drop (nat (row_ptr A ! i)) (zip (col_ind A) (vals A)))"

text \<open>
  The kernel invoked in strict sequence on the same matrix and input vector, once for
  each invocation number of the list, each invocation on the output buffer that the one
  before has left.
\<close>

fun call_seq :: "(nat \<Rightarrow> 'd kernel) \<Rightarrow> 'd CsrMatrix \<Rightarrow> 'd list \<Rightarrow> nat list \<Rightarrow> 'd list \<Rightarrow> fault + 'd list" where
  "call_seq kern A v [] c = Inr c"
| "call_seq kern A v (k # ks) c =
     (case kern k A v c of Inl e \<Rightarrow> Inl e | Inr c' \<Rightarrow> call_seq kern A v ks c')"

subsection \<open>Inputs of the scenarios\<close>

text \<open>
  The scenario of the specification: the triplets \<open>(0,0,1.0)\<close>, \<open>(0,1,2.0)\<close>,
  \<open>(1,1,3.0)\<close> of a 2 by 2 matrix, and the matrix they give. The values are real
  numbers here; on them binary64 addition and multiplication are exact.
\<close>

definition scenario_triplets :: "real Triplet list" where
  "scenario_triplets =
     [\<lparr>row = 0, col = 0, val = 1\<rparr>, \<lparr>row = 0, col = 1, val = 2\<rparr>, \<lparr>row = 1, col = 1, val = 3\<rparr>]"

definition scenario_matrix :: "real CsrMatrix" where
  "scenario_matrix =
     \<lparr>rows = 2, cols = 2, nnz = 3, row_ptr = [0, 2, 3], col_ind = [0, 1, 1], vals = [1, 2, 3]\<rparr>"

text \<open>The Matrix Market file of the scenario, with its indices counted from 1.\<close>

definition scenario_file :: "real mtx_file" where
  "scenario_file = Mtx 2 2 3 [(1, 1, 1), (1, 2, 2), (2, 2, 3)]"

text \<open>
  The duplicate scenario: the triplet \<open>(0,0,1.0)\<close> twice, for a 1 by 1 matrix.
\<close>

definition duplicate_triplets :: "real Triplet list" where
  "duplicate_triplets = [\<lparr>row = 0, col = 0, val = 1\<rparr>, \<lparr>row = 0, col = 0, val = 1\<rparr>]"

text \<open>A matrix with an empty row between two others, and with empty rows at the end.\<close>

definition gap_triplets :: "real Triplet list" where
  "gap_triplets = [\<lparr>row = 2, col = 1, val = 5\<rparr>, \<lparr>row = 0, col = 0, val = 4\<rparr>]"

definition gap_sorted :: "real Triplet list" where
  "gap_sorted = [\<lparr>row = 0, col = 0, val = 4\<rparr>, \<lparr>row = 2, col = 1, val = 5\<rparr>]"

subsection \<open>Auxiliary notions for the proofs\<close>

text \<open>
  \<open>row_val A v i\<close> is what the loop body computes before it writes; \<open>row_ok\<close> says that
  the body runs without fault; \<open>rows_done A v I c\<close> is the output after the rows in \<open>I\<close>
  have been written.
\<close>

definition row_val :: "('d::{zero,plus,times}) CsrMatrix \<Rightarrow> 'd list \<Rightarrow> int \<Rightarrow> fault + 'd" where
  "row_val A v i =
     (case rd (row_ptr A) i of Inl e \<Rightarrow> Inl e | Inr row_start \<Rightarrow>
      (case rd (row_ptr A) (i + 1) of Inl e \<Rightarrow> Inl e | Inr row_end \<Rightarrow>
         row_sum A v row_start row_end 0))"

definition row_ok :: "('d::{zero,plus,times}) CsrMatrix \<Rightarrow> 'd list \<Rightarrow> 'd list \<Rightarrow> int \<Rightarrow> bool" where
  "row_ok A v c i = (0 \<le> i \<and> i < int (length c) \<and> \<not> isl (row_val A v i))"

definition rows_done :: "('d::{zero,plus,times}) CsrMatrix \<Rightarrow> 'd list \<Rightarrow> int set \<Rightarrow> 'd list \<Rightarrow> 'd list" where
  "rows_done A v I c =
     map (\<lambda>k. if int k \<in> I then projr (row_val A v (int k)) else c ! k) [0..<length c]"

text \<open>
  \<open>row_start s r\<close> is the row pointer the conversion computes for row \<open>r\<close> from the
  sorted triplets \<open>s\<close>, and \<open>csr_of\<close> the matrix it returns.
\<close>

definition row_start :: "'d Triplet list \<Rightarrow> nat \<Rightarrow> int" where
  "row_start s r = (if r = 0 then 0 else int (length (takeWhile (\<lambda>t. row t < int r) s)))"

definition csr_of :: "'d Triplet list \<Rightarrow> int \<Rightarrow> int \<Rightarrow> 'd CsrMatrix" where
  "csr_of s n_rows n_cols =
     \<lparr>rows = n_rows, cols = n_cols, nnz = int (length s),
      row_ptr = map (row_start s) [0..<nat (n_rows + 1)],
      col_ind = map col s, vals = map val s\<rparr>"

text \<open>
  \<open>kernel_total\<close>: the kernel returns, with an output of the same length, on every
  output buffer of length \<open>n\<close>.
\<close>

definition kernel_total :: "(nat \<Rightarrow> 'd kernel) \<Rightarrow> 'd CsrMatrix \<Rightarrow> 'd list \<Rightarrow> nat \<Rightarrow> bool" where
  "kernel_total kern A v n =
     (\<forall>k c. length c = n \<longrightarrow> (\<exists>c'. kern k A v c = Inr c' \<and> length c' = n))"

section \<open>Proofs\<close>

declare row_sum.simps [simp del] seq_rows.simps [simp del]

declare backfill.simps [simp del] fill_tail.simps [simp del]

declare fill_random.simps [simp del] timed_runs.simps [simp del]

subsection \<open>The kernels\<close>

lemma rd_fault: "rd xs i = Inl x \<Longrightarrow> x = OutOfBounds"
  by (simp add: rd_def split: if_splits)


lemma row_sum_fault: "row_sum A v j e s = Inl x \<Longrightarrow> x = OutOfBounds"
proof (induction A v j e s rule: row_sum.induct)
  case (1 A v j row_end s)
  show ?case
  proof (cases "j < row_end")
    case False
    with "1.prems" show ?thesis by (simp add: row_sum.simps)
  next
    case True
    with "1.prems" "1.IH" show ?thesis
      by (subst (asm) row_sum.simps) (auto split: sum.splits dest: rd_fault)
  qed
qed

lemma row_sum_ok:
  assumes "0 \<le> j" "e \<le> int (length (vals A))" "e \<le> int (length (col_ind A))"
    and "\<forall>k. nat j \<le> k \<and> k < nat e \<longrightarrow> 0 \<le> col_ind A ! k \<and> col_ind A ! k < int (length v)"
  shows "row_sum A v j e s =
           Inr (foldl (\<lambda>s k. s + vals A ! k * v ! nat (col_ind A ! k)) s [nat j..<nat e])"
  using assms
proof (induction A v j e s rule: row_sum.induct)
  case (1 A v j row_end s)
  show ?case
  proof (cases "j < row_end")
    case False
    then show ?thesis by (simp add: row_sum.simps)
  next
    case True
    have nj: "nat (j + 1) = Suc (nat j)" using "1.prems"(1) by simp
    have lt: "nat j < nat row_end" using True "1.prems"(1) by simp
    have r1: "rd (vals A) j = Inr (vals A ! nat j)"
      using True "1.prems" by (simp add: rd_def)
    have r2: "rd (col_ind A) j = Inr (col_ind A ! nat j)"
      using True "1.prems" by (simp add: rd_def)
    have r3: "rd v (col_ind A ! nat j) = Inr (v ! nat (col_ind A ! nat j))"
      using lt "1.prems"(4) by (simp add: rd_def)
    have step: "row_sum A v (j + 1) row_end (s + vals A ! nat j * v ! nat (col_ind A ! nat j)) =
        Inr (foldl (\<lambda>s k. s + vals A ! k * v ! nat (col_ind A ! k))
               (s + vals A ! nat j * v ! nat (col_ind A ! nat j)) [nat (j + 1)..<nat row_end])"
      using "1.IH" [OF True r1 r2 r3] "1.prems" nj by simp
    have "row_sum A v j row_end s =
        row_sum A v (j + 1) row_end (s + vals A ! nat j * v ! nat (col_ind A ! nat j))"
      using True r1 r2 r3 by (subst row_sum.simps) simp
    then show ?thesis
      using step lt nj by (simp add: upt_conv_Cons)
  qed
qed

lemma row_val_fault: "row_val A v i = Inl x \<Longrightarrow> x = OutOfBounds"
  by (auto simp: row_val_def split: sum.splits dest: rd_fault row_sum_fault)

lemma row_body_row_val:
  "row_body A v i c = (case row_val A v i of Inl e \<Rightarrow> Inl e | Inr s \<Rightarrow> wr c i s)"
  by (simp add: row_body_def row_val_def split: sum.splits)

lemma row_body_cases:
  "row_body A v i c =
     (if row_ok A v c i then Inr (c[nat i := projr (row_val A v i)]) else Inl OutOfBounds)"
proof (cases "row_val A v i")
  case (Inl x)
  then show ?thesis
    using row_val_fault [OF Inl] by (simp add: row_body_row_val row_ok_def)
next
  case (Inr s)
  then show ?thesis
    by (simp add: row_body_row_val row_ok_def wr_def)
qed

lemma length_rows_done [simp]: "length (rows_done A v I c) = length c"
  by (simp add: rows_done_def)

lemma rows_done_update:
  assumes "0 \<le> i" "i < int (length c)"
  shows "rows_done A v I (c[nat i := projr (row_val A v i)]) = rows_done A v (insert i I) c"
proof (rule nth_equalityI)
  show "length (rows_done A v I (c[nat i := projr (row_val A v i)])) =
        length (rows_done A v (insert i I) c)"
    by simp
next
  fix k
  assume "k < length (rows_done A v I (c[nat i := projr (row_val A v i)]))"
  then have k: "k < length c" by simp
  show "rows_done A v I (c[nat i := projr (row_val A v i)]) ! k = rows_done A v (insert i I) c ! k"
  proof (cases "int k = i")
    case True
    then have "nat i = k" by simp
    with k True show ?thesis by (simp add: rows_done_def)
  next
    case False
    then have "nat i \<noteq> k" using assms(1) by auto
    with k False show ?thesis by (simp add: rows_done_def)
  qed
qed

lemma row_ok_length: "length c' = length c \<Longrightarrow> row_ok A v c' i = row_ok A v c i"
  by (simp add: row_ok_def)

lemma par_rows_cases:
  "par_rows A v order c =
     (if \<forall>i\<in>set order. row_ok A v c i then Inr (rows_done A v (set order) c)
      else Inl OutOfBounds)"
proof (induction order arbitrary: c)
  case Nil
  show ?case by (simp add: rows_done_def map_nth)
next
  case (Cons i order)
  show ?case
  proof (cases "row_ok A v c i")
    case False
    then show ?thesis by (simp add: row_body_cases)
  next
    case True
    let ?c = "c[nat i := projr (row_val A v i)]"
    have len: "length ?c = length c" by simp
    have i: "0 \<le> i" "i < int (length c)" using True by (simp_all add: row_ok_def)
    have "par_rows A v (i # order) c = par_rows A v order ?c"
      using True by (simp add: row_body_cases)
    also have "\<dots> = (if \<forall>j\<in>set order. row_ok A v c j
                     then Inr (rows_done A v (insert i (set order)) c) else Inl OutOfBounds)"
      by (simp only: Cons.IH row_ok_length [OF len] rows_done_update [OF i])
    finally show ?thesis using True by simp
  qed
qed

lemma seq_rows_par_rows: "seq_rows A v i c = par_rows A v [i..rows A - 1] c"
proof (induction A v i c rule: seq_rows.induct)
  case (1 A v i c)
  show ?case
  proof (cases "i < rows A")
    case False
    then show ?thesis by (simp add: seq_rows.simps)
  next
    case True
    then have "[i..rows A - 1] = i # [i + 1..rows A - 1]"
      by (simp add: upto_rec1)
    with True "1.IH" show ?thesis
      by (subst seq_rows.simps) (simp split: sum.splits)
  qed
qed

lemma par_rows_order:
  "set order = set order' \<Longrightarrow> par_rows A v order c = par_rows A v order' c"
  by (simp add: par_rows_cases)

lemma omp_for_order_set: "omp_for_order n order \<Longrightarrow> set order = set [0..n - 1]"
  unfolding omp_for_order_def using mset_eq_setD by blast

lemma spmv_parallel_sequential:
  "omp_for_order (rows A) order \<Longrightarrow> spmv_csr_parallel order A v c = spmv_csr_sequential A v c"
  by (simp only: spmv_csr_parallel_def spmv_csr_sequential_def seq_rows_par_rows
      par_rows_order [OF omp_for_order_set])

lemma multiply_parallel_sequential:
  "omp_for_order (rows A) order \<Longrightarrow> multiply_parallel order A v = multiply_sequential A v"
  by (simp add: multiply_parallel_def multiply_sequential_def spmv_parallel_sequential
      split: sum.splits)

lemma rows_done_idem: "rows_done A v I (rows_done A v I c) = rows_done A v I c"
  by (intro nth_equalityI) (simp_all add: rows_done_def)

lemma par_rows_idem:
  assumes "set order' = set order" "par_rows A v order c = Inr c1"
  shows "par_rows A v order' c = Inr c1" "par_rows A v order' c1 = Inr c1"
proof -
  have eq: "(if \<forall>i\<in>set order. row_ok A v c i then Inr (rows_done A v (set order) c)
             else Inl OutOfBounds) = Inr c1"
    using assms(2) by (simp only: par_rows_cases)
  have ok: "\<forall>i\<in>set order. row_ok A v c i"
  proof (rule ccontr)
    assume "\<not> (\<forall>i\<in>set order. row_ok A v c i)"
    then have "(if \<forall>i\<in>set order. row_ok A v c i then Inr (rows_done A v (set order) c)
             else Inl OutOfBounds) = (Inl OutOfBounds :: fault + 'a list)"
      by (simp only: if_False)
    with eq show False by simp
  qed
  have c1: "rows_done A v (set order) c = c1"
    using eq ok by simp
  show "par_rows A v order' c = Inr c1"
    unfolding par_rows_cases assms(1) c1 by (rule if_P [OF ok])
  have len: "length c1 = length c"
    unfolding c1 [symmetric] by simp
  have ok1: "\<forall>i\<in>set order. row_ok A v c1 i"
    using ok by (simp only: row_ok_length [OF len])
  have c2: "rows_done A v (set order) c1 = c1"
    using rows_done_idem [of A v "set order" c] by (simp only: c1)
  show "par_rows A v order' c1 = Inr c1"
    unfolding par_rows_cases assms(1) c2 by (rule if_P [OF ok1])
qed

subsection \<open>The loops of the conversion\<close>

lemma backfill_result:
  assumes "0 \<le> cr" "target < int (length rp)"
  shows "backfill target i cr rp =
           Inr (max cr target,
                map (\<lambda>r. if cr < int r \<and> int r \<le> target then i else rp ! r) [0..<length rp])"
  using assms
proof (induction target i cr rp rule: backfill.induct)
  case (1 target i cr rp)
  show ?case
  proof (cases "cr < target")
    case False
    then have "map (\<lambda>r. if cr < int r \<and> int r \<le> target then i else rp ! r) [0..<length rp] = rp"
      by (intro nth_equalityI) auto
    with False show ?thesis
      by (simp add: backfill.simps)
  next
    case True
    let ?rp = "rp[nat (cr + 1) := i]"
    have w: "wr rp (cr + 1) i = Inr ?rp"
      using True "1.prems" by (simp add: wr_def)
    have "backfill target i cr rp = backfill target i (cr + 1) ?rp"
      using True w by (subst backfill.simps) simp
    also have "\<dots> = Inr (max (cr + 1) target,
          map (\<lambda>r. if cr + 1 < int r \<and> int r \<le> target then i else ?rp ! r) [0..<length ?rp])"
      using "1.IH" [OF True w] "1.prems" by simp
    also have "map (\<lambda>r. if cr + 1 < int r \<and> int r \<le> target then i else ?rp ! r) [0..<length ?rp] =
               map (\<lambda>r. if cr < int r \<and> int r \<le> target then i else rp ! r) [0..<length rp]"
    proof (rule nth_equalityI)
      fix k
      assume "k < length (map (\<lambda>r. if cr + 1 < int r \<and> int r \<le> target then i else ?rp ! r) [0..<length ?rp])"
      then have k: "k < length rp" by simp
      show "map (\<lambda>r. if cr + 1 < int r \<and> int r \<le> target then i else ?rp ! r) [0..<length ?rp] ! k =
            map (\<lambda>r. if cr < int r \<and> int r \<le> target then i else rp ! r) [0..<length rp] ! k"
      proof (cases "k = nat (cr + 1)")
        case True
        with k \<open>cr < target\<close> "1.prems" show ?thesis by simp
      next
        case False
        with k "1.prems" show ?thesis by auto
      qed
    qed simp
    finally show ?thesis using True by (simp add: max_def)
  qed
qed

lemma fill_tail_result:
  assumes "0 \<le> i" "n_rows < int (length rp)"
  shows "fill_tail i n_rows n rp =
           Inr (map (\<lambda>r. if i \<le> int r \<and> int r \<le> n_rows then n else rp ! r) [0..<length rp])"
  using assms
proof (induction i n_rows n rp rule: fill_tail.induct)
  case (1 i n_rows n rp)
  show ?case
  proof (cases "i \<le> n_rows")
    case False
    then have "map (\<lambda>r. if i \<le> int r \<and> int r \<le> n_rows then n else rp ! r) [0..<length rp] = rp"
      by (intro nth_equalityI) auto
    with False show ?thesis
      by (simp add: fill_tail.simps)
  next
    case True
    let ?rp = "rp[nat i := n]"
    have w: "wr rp i n = Inr ?rp"
      using True "1.prems" by (simp add: wr_def)
    have "fill_tail i n_rows n rp = fill_tail (i + 1) n_rows n ?rp"
      using True w by (subst fill_tail.simps) simp
    also have "\<dots> = Inr (map (\<lambda>r. if i + 1 \<le> int r \<and> int r \<le> n_rows then n else ?rp ! r) [0..<length ?rp])"
      using "1.IH" [OF True w] "1.prems" by simp
    also have "map (\<lambda>r. if i + 1 \<le> int r \<and> int r \<le> n_rows then n else ?rp ! r) [0..<length ?rp] =
               map (\<lambda>r. if i \<le> int r \<and> int r \<le> n_rows then n else rp ! r) [0..<length rp]"
    proof (rule nth_equalityI)
      fix k
      assume "k < length (map (\<lambda>r. if i + 1 \<le> int r \<and> int r \<le> n_rows then n else ?rp ! r) [0..<length ?rp])"
      then have k: "k < length rp" by simp
      show "map (\<lambda>r. if i + 1 \<le> int r \<and> int r \<le> n_rows then n else ?rp ! r) [0..<length ?rp] ! k =
            map (\<lambda>r. if i \<le> int r \<and> int r \<le> n_rows then n else rp ! r) [0..<length rp] ! k"
      proof (cases "k = nat i")
        case True
        with k \<open>i \<le> n_rows\<close> "1.prems" show ?thesis by simp
      next
        case False
        with k "1.prems" show ?thesis by auto
      qed
    qed simp
    finally show ?thesis .
  qed
qed

lemma foldl_max_ge: "(cr::int) \<le> foldl max cr xs"
proof (induction xs arbitrary: cr)
  case Nil
  show ?case by simp
next
  case (Cons x xs)
  have "cr \<le> max cr x" by simp
  also have "\<dots> \<le> foldl max (max cr x) xs" by (rule Cons.IH)
  finally show ?case by simp
qed

lemma splice_step:
  assumes "i < length xs"
  shows "take (Suc i) (xs[i := x]) @ ys @ drop (Suc i + n) (xs[i := x]) =
         take i xs @ (x # ys) @ drop (i + Suc n) xs"
  using assms by (simp add: take_Suc_conv_app_nth)

lemma scan_result:
  assumes "0 \<le> cr" "0 \<le> i"
    and "\<forall>t\<in>set ts. row t < int (length (row_ptr m))"
    and "nat i + length ts \<le> length (col_ind m)"
    and "nat i + length ts \<le> length (vals m)"
  shows "scan ts i cr m =
     Inr (foldl max cr (map row ts),
          m\<lparr>row_ptr :=
                 map (\<lambda>r. if cr < int r \<and> int r \<le> foldl max cr (map row ts)
                           then i + int (length (takeWhile (\<lambda>t. row t < int r) ts))
                           else row_ptr m ! r) [0..<length (row_ptr m)],
              col_ind := take (nat i) (col_ind m) @ map col ts @ drop (nat i + length ts) (col_ind m),
              vals := take (nat i) (vals m) @ map val ts @ drop (nat i + length ts) (vals m)\<rparr>)"
  using assms
proof (induction ts arbitrary: i cr m)
  case Nil
  have "map (\<lambda>r. if cr < int r \<and> int r \<le> cr
                 then i + int (length (takeWhile (\<lambda>t. row t < int r) ([] :: 'a Triplet list)))
                 else row_ptr m ! r) [0..<length (row_ptr m)] = row_ptr m"
    by (intro nth_equalityI) auto
  then show ?case by simp
next
  case (Cons t ts)
  let ?ci = "(col_ind m)[nat i := col t]"
  let ?vs = "(vals m)[nat i := val t]"
  let ?cr = "max cr (row t)"
  let ?rp = "map (\<lambda>r. if cr < int r \<and> int r \<le> row t then i else row_ptr m ! r)
               [0..<length (row_ptr m)]"
  let ?m = "m\<lparr>row_ptr := ?rp, col_ind := ?ci, vals := ?vs\<rparr>"
  let ?M = "foldl max ?cr (map row ts)"
  have i1: "nat (i + 1) = Suc (nat i)" using Cons.prems(2) by simp
  have ilen: "nat i < length (col_ind m)" "nat i < length (vals m)"
    using Cons.prems by simp_all
  have w1: "wr (col_ind m) i (col t) = Inr ?ci"
    using ilen Cons.prems(2) by (simp add: wr_def)
  have w2: "wr (vals m) i (val t) = Inr ?vs"
    using ilen Cons.prems(2) by (simp add: wr_def)
  have bf: "backfill (row t) i cr (row_ptr m) = Inr (?cr, ?rp)"
    using Cons.prems by (simp add: backfill_result)
  have step: "scan (t # ts) i cr m = scan ts (i + 1) ?cr ?m"
    by (simp add: w1 w2 bf)
  have IH: "scan ts (i + 1) ?cr ?m =
     Inr (?M,
          ?m\<lparr>row_ptr :=
                 map (\<lambda>r. if ?cr < int r \<and> int r \<le> ?M
                           then (i + 1) + int (length (takeWhile (\<lambda>t. row t < int r) ts))
                           else row_ptr ?m ! r) [0..<length (row_ptr ?m)],
              col_ind := take (nat (i + 1)) (col_ind ?m) @ map col ts @ drop (nat (i + 1) + length ts) (col_ind ?m),
              vals := take (nat (i + 1)) (vals ?m) @ map val ts @ drop (nat (i + 1) + length ts) (vals ?m)\<rparr>)"
    using Cons.prems by (intro Cons.IH) (simp_all add: i1)
  have M: "?cr \<le> ?M" by (rule foldl_max_ge)
  have rp: "map (\<lambda>r. if ?cr < int r \<and> int r \<le> ?M
                           then (i + 1) + int (length (takeWhile (\<lambda>t. row t < int r) ts))
                           else ?rp ! r) [0..<length ?rp] =
            map (\<lambda>r. if cr < int r \<and> int r \<le> ?M
                           then i + int (length (takeWhile (\<lambda>t. row t < int r) (t # ts)))
                           else row_ptr m ! r) [0..<length (row_ptr m)]"
  proof (rule nth_equalityI)
    fix k
    assume "k < length (map (\<lambda>r. if ?cr < int r \<and> int r \<le> ?M
                           then (i + 1) + int (length (takeWhile (\<lambda>t. row t < int r) ts))
                           else ?rp ! r) [0..<length ?rp])"
    then have k: "k < length (row_ptr m)" by simp
    consider "int k \<le> cr" | "cr < int k" "int k \<le> row t" | "?cr < int k" "int k \<le> ?M" | "?M < int k" "cr < int k" "row t < int k"
      by (cases "int k \<le> cr"; cases "int k \<le> row t"; cases "int k \<le> ?M") auto
    then show "map (\<lambda>r. if ?cr < int r \<and> int r \<le> ?M
                           then (i + 1) + int (length (takeWhile (\<lambda>t. row t < int r) ts))
                           else ?rp ! r) [0..<length ?rp] ! k =
            map (\<lambda>r. if cr < int r \<and> int r \<le> ?M
                           then i + int (length (takeWhile (\<lambda>t. row t < int r) (t # ts)))
                           else row_ptr m ! r) [0..<length (row_ptr m)] ! k"
    proof cases
      case 1
      with k M show ?thesis by simp
    next
      case 2
      with k M show ?thesis by simp
    next
      case 3
      with k M show ?thesis by simp
    next
      case 4
      with k M show ?thesis by simp
    qed
  qed simp
  have ci: "take (nat (i + 1)) ?ci @ map col ts @ drop (nat (i + 1) + length ts) ?ci =
            take (nat i) (col_ind m) @ map col (t # ts) @ drop (nat i + length (t # ts)) (col_ind m)"
    using splice_step [OF ilen(1), of "col t" "map col ts" "length ts"] by (simp add: i1)
  have vs: "take (nat (i + 1)) ?vs @ map val ts @ drop (nat (i + 1) + length ts) ?vs =
            take (nat i) (vals m) @ map val (t # ts) @ drop (nat i + length (t # ts)) (vals m)"
    using splice_step [OF ilen(2), of "val t" "map val ts" "length ts"] by (simp add: i1)
  have sel: "row_ptr ?m = ?rp" "col_ind ?m = ?ci" "vals ?m = ?vs"
    by simp_all
  have upd: "?m\<lparr>row_ptr := X, col_ind := Y, vals := Z\<rparr> =
             m\<lparr>row_ptr := X, col_ind := Y, vals := Z\<rparr>" for X Y Z
    by simp
  have fm: "foldl max cr (map row (t # ts)) = ?M" by simp
  show ?case
    by (simp only: step IH sel upd rp ci vs fm)
qed

lemma foldl_max_mem: "x \<in> set xs \<Longrightarrow> (x::int) \<le> foldl max cr xs"
proof (induction xs arbitrary: cr)
  case Nil
  then show ?case by simp
next
  case (Cons a xs)
  show ?case
  proof (cases "x = a")
    case True
    have "a \<le> max cr a" by simp
    also have "\<dots> \<le> foldl max (max cr a) xs" by (rule foldl_max_ge)
    finally show ?thesis using True by simp
  next
    case False
    with Cons.prems have "x \<in> set xs" by simp
    then show ?thesis using Cons.IH by simp
  qed
qed

lemma coo_to_csr_result:
  assumes "- 1 \<le> n_rows" "\<forall>t\<in>set s. row t \<le> n_rows" "n_rows < INT_MAX"
  shows "coo_to_csr s n_rows n_cols =
     Inr \<lparr>rows = n_rows, cols = n_cols, nnz = int (length s),
          row_ptr = map (row_start s) [0..<nat (n_rows + 1)],
          col_ind = map col s, vals = map val s\<rparr>"
proof -
  let ?n = "nat (n_rows + 1)"
  let ?m = "\<lparr>rows = n_rows, cols = n_cols, nnz = int (length s),
               row_ptr = replicate ?n 0, col_ind = replicate (length s) 0,
               vals = replicate (length s) (0::'a)\<rparr>"
  let ?M = "foldl max 0 (map row s)"
  let ?rp = "map (\<lambda>r. if 0 < int r \<and> int r \<le> ?M
                        then 0 + int (length (takeWhile (\<lambda>t. row t < int r) s))
                        else row_ptr ?m ! r) [0..<length (row_ptr ?m)]"
  have a1: "alloc (n_rows + 1) (0::int) = Inr (replicate ?n 0)"
    using assms(1) by (simp add: alloc_def)
  have a2: "alloc (int (length s)) (0::int) = Inr (replicate (length s) 0)"
    by (simp add: alloc_def)
  have a3: "alloc (int (length s)) (0::'a) = Inr (replicate (length s) 0)"
    by (simp add: alloc_def)
  have sc: "scan s 0 0 ?m =
     Inr (?M, ?m\<lparr>row_ptr := ?rp,
              col_ind := take (nat 0) (col_ind ?m) @ map col s @ drop (nat 0 + length s) (col_ind ?m),
              vals := take (nat 0) (vals ?m) @ map val s @ drop (nat 0 + length s) (vals ?m)\<rparr>)"
    using assms(1,2) by (intro scan_result) auto
  have M0: "0 \<le> ?M" by (rule foldl_max_ge)
  have ft: "fill_tail (?M + 1) n_rows (int (length s)) ?rp =
     Inr (map (\<lambda>r. if ?M + 1 \<le> int r \<and> int r \<le> n_rows then int (length s) else ?rp ! r)
            [0..<length ?rp])"
    using M0 assms(1) by (intro fill_tail_result) auto
  have rp: "map (\<lambda>r. if ?M + 1 \<le> int r \<and> int r \<le> n_rows then int (length s) else ?rp ! r)
            [0..<length ?rp] = map (row_start s) [0..<?n]"
  proof (rule nth_equalityI)
    fix k
    assume "k < length (map (\<lambda>r. if ?M + 1 \<le> int r \<and> int r \<le> n_rows then int (length s) else ?rp ! r)
            [0..<length ?rp])"
    then have k: "k < ?n" by simp
    show "map (\<lambda>r. if ?M + 1 \<le> int r \<and> int r \<le> n_rows then int (length s) else ?rp ! r)
            [0..<length ?rp] ! k = map (row_start s) [0..<?n] ! k"
    proof (cases "?M < int k")
      case True
      have "\<forall>t\<in>set s. row t < int k"
      proof
        fix t assume "t \<in> set s"
        then have "row t \<le> ?M" by (intro foldl_max_mem) simp
        with True show "row t < int k" by simp
      qed
      then have "takeWhile (\<lambda>t. row t < int k) s = s"
        by (simp only: takeWhile_eq_all_conv)
      then have tw: "length (takeWhile (\<lambda>t. row t < int k) s) = length s"
        by (rule arg_cong)
      have kk: "int k \<le> n_rows" "k \<noteq> 0" "?M + 1 \<le> int k"
        using True k M0 by auto
      show ?thesis using k kk by (simp add: row_start_def tw)
    next
      case False
      with k M0 show ?thesis by (simp add: row_start_def)
    qed
  qed simp
  define csr1 where "csr1 = ?m\<lparr>row_ptr := ?rp,
              col_ind := take (nat 0) (col_ind ?m) @ map col s @ drop (nat 0 + length s) (col_ind ?m),
              vals := take (nat 0) (vals ?m) @ map val s @ drop (nat 0 + length s) (vals ?m)\<rparr>"
  have sc': "scan s 0 0 ?m = Inr (?M, csr1)"
    unfolding csr1_def by (rule sc)
  have sel: "row_ptr csr1 = ?rp"
    by (simp add: csr1_def)
  have ft': "fill_tail (?M + 1) n_rows (int (length s)) (row_ptr csr1) =
             Inr (map (row_start s) [0..<?n])"
    unfolding sel ft rp ..
  have fin: "csr1\<lparr>row_ptr := map (row_start s) [0..<?n]\<rparr> =
     \<lparr>rows = n_rows, cols = n_cols, nnz = int (length s),
      row_ptr = map (row_start s) [0..<?n], col_ind = map col s, vals = map val s\<rparr>"
    by (simp add: csr1_def)
  have ov: "\<not> INT_MAX \<le> n_rows"
    using assms(3) by simp
  show ?thesis
    by (simp only: coo_to_csr_def ov if_False a1 a2 a3 sc' ft' fin sum.case prod.case)
qed

subsection \<open>Sorted triplets\<close>

lemma std_sort_rows:
  assumes "std_sort_result ts s"
  shows "sorted_wrt (\<lambda>a b. row a \<le> row b) s"
proof -
  have "sorted_wrt (\<lambda>a b. \<not> compareTriplets b a) s"
    using assms by (simp add: std_sort_result_def)
  then show ?thesis
    by (rule sorted_wrt_mono_rel [rotated]) (auto simp: compareTriplets_def split: if_splits)
qed

lemma std_sort_set: "std_sort_result ts s \<Longrightarrow> set s = set ts"
  unfolding std_sort_result_def using mset_eq_setD by blast

lemma std_sort_length: "std_sort_result ts s \<Longrightarrow> length s = length ts"
  unfolding std_sort_result_def using mset_eq_length by blast

lemma takeWhile_filter_sorted:
  "sorted_wrt (\<lambda>a b. row a \<le> row b) s \<Longrightarrow>
   takeWhile (\<lambda>t. row t < r) s = filter (\<lambda>t. row t < r) s"
proof (induction s)
  case Nil
  show ?case by simp
next
  case (Cons a s)
  show ?case
  proof (cases "row a < r")
    case True
    with Cons show ?thesis by simp
  next
    case False
    with Cons.prems have "\<forall>t\<in>set s. \<not> row t < r" by auto
    then have "filter (\<lambda>t. row t < r) s = []" by (simp add: filter_empty_conv)
    with False show ?thesis by simp
  qed
qed

lemma dropWhile_filter_sorted:
  "sorted_wrt (\<lambda>a b. row a \<le> row b) s \<Longrightarrow>
   dropWhile (\<lambda>t. row t < r) s = filter (\<lambda>t. \<not> row t < r) s"
proof (induction s)
  case Nil
  show ?case by simp
next
  case (Cons a s)
  show ?case
  proof (cases "row a < r")
    case True
    with Cons show ?thesis by simp
  next
    case False
    with Cons.prems have "\<forall>t\<in>set s. \<not> row t < r" by auto
    then have "filter (\<lambda>t. \<not> row t < r) s = s" by simp
    with False show ?thesis by simp
  qed
qed

lemma takeWhile_split:
  "(\<And>x. P x \<Longrightarrow> Q x) \<Longrightarrow> takeWhile Q xs = takeWhile P xs @ takeWhile Q (dropWhile P xs)"
  by (induction xs) auto

lemma length_takeWhile_mono:
  "(\<And>x. P x \<Longrightarrow> Q x) \<Longrightarrow> length (takeWhile P xs) \<le> length (takeWhile Q xs)"
  by (induction xs) auto

lemma insert_triplet_mset: "mset (insert_triplet t xs) = add_mset t (mset xs)"
  by (induction xs) simp_all

lemma insert_triplet_sorted:
  "sorted_wrt (\<lambda>a b. \<not> compareTriplets b a) xs \<Longrightarrow>
   sorted_wrt (\<lambda>a b. \<not> compareTriplets b a) (insert_triplet t xs)"
proof (induction xs)
  case Nil
  show ?case by simp
next
  case (Cons x xs)
  have set: "set (insert_triplet t xs) = insert t (set xs)"
    using insert_triplet_mset [of t xs] by (metis set_mset_add_mset_insert set_mset_mset)
  show ?case
  proof (cases "compareTriplets x t")
    case True
    then have "\<not> compareTriplets t x"
      by (auto simp: compareTriplets_def split: if_splits)
    with True Cons set show ?thesis by simp
  next
    case False
    have "\<not> compareTriplets y t" if "y \<in> set xs" for y
    proof -
      have "\<not> compareTriplets y x" using that Cons.prems by simp
      with False show ?thesis
        by (auto simp: compareTriplets_def split: if_splits)
    qed
    with False Cons.prems show ?thesis by simp
  qed
qed

lemma sort_triplets_result: "std_sort_result ts (sort_triplets ts)"
proof -
  have "mset (foldr insert_triplet ts []) = mset ts
        \<and> sorted_wrt (\<lambda>a b. \<not> compareTriplets b a) (foldr insert_triplet ts [])"
    by (induction ts) (simp_all add: insert_triplet_mset insert_triplet_sorted)
  then show ?thesis
    by (simp add: std_sort_result_def sort_triplets_def)
qed

lemma std_sort_unique:
  assumes "sorted_wrt compareTriplets ts" "std_sort_result ts s"
  shows "s = ts"
  using assms
proof (induction ts arbitrary: s)
  case Nil
  then show ?case by (simp add: std_sort_result_def)
next
  case (Cons a ts)
  have ms: "mset s = add_mset a (mset ts)"
    and srt: "sorted_wrt (\<lambda>x y. \<not> compareTriplets y x) s"
    using Cons.prems(2) by (simp_all add: std_sort_result_def)
  from ms obtain b s' where s: "s = b # s'" by (cases s) auto
  have "b = a"
  proof (rule ccontr)
    assume neq: "b \<noteq> a"
    have "b \<in># add_mset a (mset ts)" using ms s by (metis list.set_intros(1) set_mset_mset)
    with neq have "b \<in> set ts" by simp
    then have c: "compareTriplets a b" using Cons.prems(1) by simp
    have "a \<in># mset s" using ms by simp
    with neq s have "a \<in> set s'" by auto
    then have "\<not> compareTriplets a b" using srt s by simp
    with c show False by simp
  qed
  with ms s have "mset s' = mset ts" by simp
  moreover have "sorted_wrt (\<lambda>x y. \<not> compareTriplets y x) s'" using srt s by simp
  ultimately have "std_sort_result ts s'" by (simp add: std_sort_result_def)
  moreover have "sorted_wrt compareTriplets ts" using Cons.prems(1) by simp
  ultimately have "s' = ts" by (rule Cons.IH [rotated])
  with \<open>b = a\<close> s show ?case by simp
qed

lemma std_sort_duplicates:
  assumes "std_sort_result duplicate_triplets s"
  shows "s = duplicate_triplets"
proof -
  have "length s = 2" using std_sort_length [OF assms] by (simp add: duplicate_triplets_def)
  then obtain a b where s: "s = [a, b]"
    by (auto simp: length_Suc_conv numeral_2_eq_2)
  have "set s = set duplicate_triplets" by (rule std_sort_set [OF assms])
  with s show ?thesis by (auto simp: duplicate_triplets_def)
qed

subsection \<open>The matrix the conversion returns\<close>

lemma row_start_nonneg_rows:
  assumes "\<forall>t\<in>set s. 0 \<le> row t"
  shows "row_start s r = int (length (takeWhile (\<lambda>t. row t < int r) s))"
proof (cases "r = 0")
  case True
  have "takeWhile (\<lambda>t. row t < 0) s = []"
    using assms by (cases s) auto
  with True show ?thesis by (simp add: row_start_def)
next
  case False
  then show ?thesis by (simp add: row_start_def)
qed

lemma row_start_mono:
  assumes "\<forall>t\<in>set s. 0 \<le> row t" "r \<le> r'"
  shows "row_start s r \<le> row_start s r'"
proof -
  have "length (takeWhile (\<lambda>t. row t < int r) s) \<le> length (takeWhile (\<lambda>t. row t < int r') s)"
    using assms(2) by (intro length_takeWhile_mono) simp
  then show ?thesis
    by (simp add: row_start_nonneg_rows [OF assms(1)])
qed

lemma row_start_last:
  assumes "\<forall>t\<in>set s. 0 \<le> row t \<and> row t < int r"
  shows "row_start s r = int (length s)"
proof -
  have "takeWhile (\<lambda>t. row t < int r) s = s"
    using assms by (simp only: takeWhile_eq_all_conv) simp
  then have "length (takeWhile (\<lambda>t. row t < int r) s) = length s"
    by (rule arg_cong)
  moreover have "\<forall>t\<in>set s. 0 \<le> row t" using assms by simp
  ultimately show ?thesis by (simp add: row_start_nonneg_rows)
qed

lemma empty_row_ptr:
  assumes "\<forall>t\<in>set s. 0 \<le> row t" "\<forall>t\<in>set s. row t \<noteq> int i"
  shows "row_start s i = row_start s (Suc i)"
proof -
  have "takeWhile (\<lambda>t. row t < int i) s = takeWhile (\<lambda>t. row t < int (Suc i)) s"
    using assms(2) by (intro takeWhile_cong) auto
  then show ?thesis
    by (simp only: row_start_nonneg_rows [OF assms(1)])
qed

lemma slice_is_filter:
  assumes "sorted_wrt (\<lambda>a b. row a \<le> row b) s" "\<forall>t\<in>set s. 0 \<le> row t"
  shows "take (nat (row_start s (Suc i)) - nat (row_start s i)) (drop (nat (row_start s i)) s) =
         filter (\<lambda>t. row t = int i) s"
proof -
  let ?P = "\<lambda>t. row t < int i" and ?Q = "\<lambda>t. row t < int (Suc i)"
  have rs: "nat (row_start s i) = length (takeWhile ?P s)"
           "nat (row_start s (Suc i)) = length (takeWhile ?Q s)"
    by (simp_all only: row_start_nonneg_rows [OF assms(2)] nat_int)
  have split: "takeWhile ?Q s = takeWhile ?P s @ takeWhile ?Q (dropWhile ?P s)"
    by (rule takeWhile_split) simp
  have len: "length (takeWhile ?Q s) - length (takeWhile ?P s) =
             length (takeWhile ?Q (dropWhile ?P s))"
    by (subst split) simp
  have sorted_drop: "sorted_wrt (\<lambda>a b. row a \<le> row b) (dropWhile ?P s)"
    using assms(1) by (simp add: dropWhile_eq_drop sorted_wrt_drop)
  have "take (nat (row_start s (Suc i)) - nat (row_start s i)) (drop (nat (row_start s i)) s) =
        takeWhile ?Q (dropWhile ?P s)"
    unfolding rs len by (simp add: dropWhile_eq_drop [symmetric] takeWhile_eq_take [symmetric])
  also have "\<dots> = filter ?Q (dropWhile ?P s)"
    by (rule takeWhile_filter_sorted [OF sorted_drop])
  also have "\<dots> = filter ?Q (filter (\<lambda>t. \<not> ?P t) s)"
    by (simp only: dropWhile_filter_sorted [OF assms(1)])
  also have "\<dots> = filter (\<lambda>t. row t = int i) s"
    by (simp add: filter_filter) (rule filter_cong, auto)
  finally show ?thesis .
qed

lemma sorted_cols_of_row:
  assumes "std_sort_result ts s"
  shows "sorted (map col (filter (\<lambda>t. row t = r) s))"
proof -
  have "sorted_wrt (\<lambda>a b. \<not> compareTriplets b a) (filter (\<lambda>t. row t = r) s)"
    using assms by (simp add: std_sort_result_def sorted_wrt_filter)
  then have "sorted_wrt (\<lambda>a b. col a \<le> col b) (filter (\<lambda>t. row t = r) s)"
    by (rule sorted_wrt_mono_rel [rotated]) (auto simp: compareTriplets_def split: if_splits)
  then show ?thesis by (simp add: sorted_map)
qed

lemma csr_of_simps [simp]:
  "rows (csr_of s n_rows n_cols) = n_rows"
  "cols (csr_of s n_rows n_cols) = n_cols"
  "nnz (csr_of s n_rows n_cols) = int (length s)"
  "row_ptr (csr_of s n_rows n_cols) = map (row_start s) [0..<nat (n_rows + 1)]"
  "col_ind (csr_of s n_rows n_cols) = map col s"
  "vals (csr_of s n_rows n_cols) = map val s"
  by (simp_all add: csr_of_def)

lemma coo_to_csr_csr_of:
  "- 1 \<le> n_rows \<Longrightarrow> \<forall>t\<in>set s. row t \<le> n_rows \<Longrightarrow> n_rows < INT_MAX \<Longrightarrow>
   coo_to_csr s n_rows n_cols = Inr (csr_of s n_rows n_cols)"
  unfolding csr_of_def by (rule coo_to_csr_result)

lemma coo_to_csr_valid:
  assumes "valid_input ts n_rows n_cols" "std_sort_result ts s" "n_rows < INT_MAX"
  shows "coo_to_csr s n_rows n_cols = Inr (csr_of s n_rows n_cols)"
proof -
  have "set s = set ts" by (rule std_sort_set [OF assms(2)])
  then have "\<forall>t\<in>set s. row t \<le> n_rows"
    using assms(1) by (auto simp: valid_input_def)
  moreover have "- 1 \<le> n_rows" using assms(1) by (simp add: valid_input_def)
  ultimately show ?thesis using assms(3) by (intro coo_to_csr_csr_of)
qed










lemma sorted_input_facts:
  assumes "valid_input ts n_rows n_cols" "std_sort_result ts s"
  shows "sorted_wrt (\<lambda>a b. row a \<le> row b) s" "\<forall>t\<in>set s. 0 \<le> row t"
proof -
  show "sorted_wrt (\<lambda>a b. row a \<le> row b) s" by (rule std_sort_rows [OF assms(2)])
  have "set s = set ts" by (rule std_sort_set [OF assms(2)])
  then show "\<forall>t\<in>set s. 0 \<le> row t" using assms(1) by (simp add: valid_input_def)
qed

lemma row_slice_csr_of:
  assumes "sorted_wrt (\<lambda>a b. row a \<le> row b) s" "\<forall>t\<in>set s. 0 \<le> row t" "int i < n_rows"
  shows "row_slice (csr_of s n_rows n_cols) i = map col (filter (\<lambda>t. row t = int i) s)"
proof -
  have "row_slice (csr_of s n_rows n_cols) i =
        map col (take (nat (row_start s (Suc i)) - nat (row_start s i)) (drop (nat (row_start s i)) s))"
    using assms(3) by (simp add: row_slice_def take_map drop_map)
  then show ?thesis
    by (simp only: slice_is_filter [OF assms(1,2)])
qed

lemma row_entries_csr_of:
  assumes "sorted_wrt (\<lambda>a b. row a \<le> row b) s" "\<forall>t\<in>set s. 0 \<le> row t" "int i < n_rows"
  shows "row_entries (csr_of s n_rows n_cols) i =
         map (\<lambda>t. (col t, val t)) (filter (\<lambda>t. row t = int i) s)"
proof -
  have z: "zip (map col s) (map val s) = map (\<lambda>t. (col t, val t)) s"
    by (induction s) simp_all
  have "row_entries (csr_of s n_rows n_cols) i =
        map (\<lambda>t. (col t, val t))
          (take (nat (row_start s (Suc i)) - nat (row_start s i)) (drop (nat (row_start s i)) s))"
    using assms(3) by (simp add: row_entries_def z take_map drop_map)
  then show ?thesis
    by (simp only: slice_is_filter [OF assms(1,2)])
qed

lemma csr_of_invariants:
  assumes "valid_input ts n_rows n_cols" "std_sort_result ts s"
  shows "csr_invariants (csr_of s n_rows n_cols)"
proof -
  let ?A = "csr_of s n_rows n_cols"
  have set: "set s = set ts" by (rule std_sort_set [OF assms(2)])
  have pos: "0 < n_rows" "0 < n_cols"
    using assms(1) by (simp_all add: valid_input_def)
  have rng: "\<forall>t\<in>set s. 0 \<le> row t \<and> row t < n_rows \<and> 0 \<le> col t \<and> col t < n_cols"
    using assms(1) set by (simp add: valid_input_def)
  then have nonneg: "\<forall>t\<in>set s. 0 \<le> row t" by simp
  have srt: "sorted_wrt (\<lambda>a b. row a \<le> row b) s" by (rule std_sort_rows [OF assms(2)])
  have i1: "0 \<le> rows ?A" using pos by simp
  have i2: "length (row_ptr ?A) = nat (rows ?A) + 1" using pos by simp
  have i3: "int (length (col_ind ?A)) = nnz ?A" "int (length (vals ?A)) = nnz ?A" by simp_all
  have i4: "row_ptr ?A ! 0 = 0" using pos by (simp add: row_start_def)
  have "row_start s (nat n_rows) = int (length s)"
    using rng pos by (intro row_start_last) simp
  then have i5: "row_ptr ?A ! nat (rows ?A) = nnz ?A" using pos by simp
  have i6: "sorted (row_ptr ?A)"
    unfolding sorted_iff_nth_mono
  proof (intro allI impI)
    fix i j
    assume "i \<le> j" "j < length (row_ptr ?A)"
    then show "row_ptr ?A ! i \<le> row_ptr ?A ! j"
      using row_start_mono [OF nonneg, of i j] by simp
  qed
  have i7: "\<forall>c\<in>set (col_ind ?A). 0 \<le> c \<and> c < cols ?A"
    using rng by simp
  have i8: "\<forall>i\<in>{0..<nat (rows ?A)}. sorted (row_slice ?A i)"
  proof
    fix i assume "i \<in> {0..<nat (rows ?A)}"
    then have "int i < n_rows" by simp
    then show "sorted (row_slice ?A i)"
      by (simp only: row_slice_csr_of [OF srt nonneg] sorted_cols_of_row [OF assms(2)])
  qed
  show ?thesis
    unfolding csr_invariants_def using i1 i2 i3 i4 i5 i6 i7 i8 by blast
qed

subsection \<open>The kernels on a well-formed matrix\<close>

lemma sorted_row_ptr_bounds:
  assumes "csr_invariants A" "i \<le> nat (rows A)"
  shows "0 \<le> row_ptr A ! i" "row_ptr A ! i \<le> nnz A"
proof -
  have s: "sorted (row_ptr A)" and l: "length (row_ptr A) = nat (rows A) + 1"
    and z: "row_ptr A ! 0 = 0" and e: "row_ptr A ! nat (rows A) = nnz A"
    using assms(1) by (simp_all add: csr_invariants_def)
  have "row_ptr A ! 0 \<le> row_ptr A ! i"
    using s l assms(2) by (intro sorted_nth_mono) simp_all
  then show "0 \<le> row_ptr A ! i" using z by simp
  have "row_ptr A ! i \<le> row_ptr A ! nat (rows A)"
    using s l assms(2) by (intro sorted_nth_mono) simp_all
  then show "row_ptr A ! i \<le> nnz A" using e by simp
qed

lemma row_val_valid:
  assumes "csr_invariants A" "int (length v) = cols A" "0 \<le> i" "i < rows A"
  shows "row_val A v i = Inr (row_dot A v (nat i))"
proof -
  have l: "length (row_ptr A) = nat (rows A) + 1"
    and lc: "int (length (col_ind A)) = nnz A" and lv: "int (length (vals A)) = nnz A"
    and cs: "\<forall>c\<in>set (col_ind A). 0 \<le> c \<and> c < cols A"
    using assms(1) by (simp_all add: csr_invariants_def)
  have i1: "nat (i + 1) = Suc (nat i)" using assms(3) by simp
  have r1: "rd (row_ptr A) i = Inr (row_ptr A ! nat i)"
    using l assms(3,4) by (simp add: rd_def)
  have r2: "rd (row_ptr A) (i + 1) = Inr (row_ptr A ! Suc (nat i))"
    using l assms(3,4) by (simp add: rd_def i1)
  have b1: "0 \<le> row_ptr A ! nat i"
    using assms(3,4) by (intro sorted_row_ptr_bounds [OF assms(1)]) simp
  have b2: "row_ptr A ! Suc (nat i) \<le> nnz A"
    using assms(3,4) by (intro sorted_row_ptr_bounds [OF assms(1)]) simp
  have b3: "\<forall>k. nat (row_ptr A ! nat i) \<le> k \<and> k < nat (row_ptr A ! Suc (nat i)) \<longrightarrow>
              0 \<le> col_ind A ! k \<and> col_ind A ! k < int (length v)"
  proof (intro allI impI)
    fix k assume "nat (row_ptr A ! nat i) \<le> k \<and> k < nat (row_ptr A ! Suc (nat i))"
    then have "int k < row_ptr A ! Suc (nat i)" by linarith
    then have "int k < int (length (col_ind A))" using b2 lc by linarith
    then have "k < length (col_ind A)" by simp
    then have "col_ind A ! k \<in> set (col_ind A)" by simp
    then show "0 \<le> col_ind A ! k \<and> col_ind A ! k < int (length v)"
      using cs assms(2) by simp
  qed
  have "row_sum A v (row_ptr A ! nat i) (row_ptr A ! Suc (nat i)) 0 = Inr (row_dot A v (nat i))"
    unfolding row_dot_def using b1 b2 lc lv b3 by (intro row_sum_ok) simp_all
  then show ?thesis
    by (simp add: row_val_def r1 r2)
qed

lemma spmv_csr_sequential_valid:
  assumes "csr_invariants A" "int (length v) = cols A" "length c = nat (rows A)"
  shows "spmv_csr_sequential A v c = Inr (map (row_dot A v) [0..<nat (rows A)])"
proof -
  have ok: "\<forall>i\<in>set [0..rows A - 1]. row_ok A v c i"
    using assms by (auto simp: row_ok_def row_val_valid)
  have "rows_done A v (set [0..rows A - 1]) c = map (row_dot A v) [0..<nat (rows A)]"
  proof (rule nth_equalityI)
    show "length (rows_done A v (set [0..rows A - 1]) c) = length (map (row_dot A v) [0..<nat (rows A)])"
      using assms(3) by simp
  next
    fix k assume "k < length (rows_done A v (set [0..rows A - 1]) c)"
    then have k: "k < nat (rows A)" using assms(3) by simp
    then have "row_val A v (int k) = Inr (row_dot A v k)"
      using row_val_valid [OF assms(1,2), of "int k"] by simp
    moreover have "int k \<in> set [0..rows A - 1]" using k by auto
    ultimately show "rows_done A v (set [0..rows A - 1]) c ! k = map (row_dot A v) [0..<nat (rows A)] ! k"
      using k assms(3) by (simp add: rows_done_def del: set_upto)
  qed
  with ok show ?thesis
    by (simp add: spmv_csr_sequential_def seq_rows_par_rows par_rows_cases)
qed

lemma multiply_sequential_valid:
  assumes "csr_invariants A" "int (length v) = cols A"
  shows "multiply_sequential A v = Inr (map (row_dot A v) [0..<nat (rows A)])"
proof -
  have "0 \<le> rows A" using assms(1) by (simp add: csr_invariants_def)
  then have "alloc (rows A) (0::'a) = Inr (replicate (nat (rows A)) 0)"
    by (simp add: alloc_def)
  then show ?thesis
    by (simp add: multiply_sequential_def spmv_csr_sequential_valid [OF assms])
qed

lemma foldl_nth_slice:
  "b \<le> length xs \<Longrightarrow>
   foldl (\<lambda>s k. f s (xs ! k)) s0 [a..<b] = foldl f s0 (take (b - a) (drop a xs))"
proof -
  assume b: "b \<le> length xs"
  have "map ((!) xs) [a..<b] = take (b - a) (drop a xs)"
    using b by (intro nth_equalityI) (auto simp: min_def)
  then have "foldl f s0 (take (b - a) (drop a xs)) = foldl f s0 (map ((!) xs) [a..<b])"
    by simp
  also have "\<dots> = foldl (\<lambda>s k. f s (xs ! k)) s0 [a..<b]"
    by (simp add: foldl_map)
  finally show ?thesis by simp
qed

lemma row_dot_entries:
  assumes "csr_invariants A" "i < nat (rows A)"
  shows "row_dot A v i = foldl (\<lambda>acc (cj, x). acc + x * v ! nat cj) 0 (row_entries A i)"
proof -
  let ?a = "nat (row_ptr A ! i)" and ?b = "nat (row_ptr A ! Suc i)"
  let ?z = "zip (col_ind A) (vals A)"
  have lc: "int (length (col_ind A)) = nnz A" and lv: "int (length (vals A)) = nnz A"
    using assms(1) by (simp_all add: csr_invariants_def)
  have "row_ptr A ! Suc i \<le> nnz A"
    using assms(2) by (intro sorted_row_ptr_bounds [OF assms(1)]) simp
  then have b: "?b \<le> length ?z" using lc lv by simp
  have "row_dot A v i = foldl (\<lambda>s k. (\<lambda>acc (cj, x). acc + x * v ! nat cj) s (?z ! k)) 0 [?a..<?b]"
    unfolding row_dot_def using b by (intro foldl_cong) auto
  also have "\<dots> = foldl (\<lambda>acc (cj, x). acc + x * v ! nat cj) 0 (take (?b - ?a) (drop ?a ?z))"
    by (rule foldl_nth_slice [OF b])
  finally show ?thesis by (simp add: row_entries_def)
qed

lemma sequential_kernel_total:
  assumes "csr_invariants A" "int (length v) = cols A"
  shows "kernel_total (\<lambda>k. spmv_csr_sequential) A v (nat (rows A))"
  unfolding kernel_total_def
proof (intro allI impI)
  fix k :: nat and c :: "'a list"
  assume "length c = nat (rows A)"
  then have "spmv_csr_sequential A v c = Inr (map (row_dot A v) [0..<nat (rows A)])"
    by (rule spmv_csr_sequential_valid [OF assms])
  moreover have "length (map (row_dot A v) [0..<nat (rows A)]) = nat (rows A)"
    by simp
  ultimately show "\<exists>c'. spmv_csr_sequential A v c = Inr c' \<and> length c' = nat (rows A)"
    by blast
qed

lemma parallel_kernel_total:
  assumes "csr_invariants A" "int (length v) = cols A" "\<forall>k. omp_for_order (rows A) (orders k)"
  shows "kernel_total (\<lambda>k. spmv_csr_parallel (orders k)) A v (nat (rows A))"
  unfolding kernel_total_def
proof (intro allI impI)
  fix k :: nat and c :: "'a list"
  assume "length c = nat (rows A)"
  then have "spmv_csr_sequential A v c = Inr (map (row_dot A v) [0..<nat (rows A)])"
    by (rule spmv_csr_sequential_valid [OF assms(1,2)])
  moreover have "spmv_csr_parallel (orders k) A v c = spmv_csr_sequential A v c"
    using assms(3) by (intro spmv_parallel_sequential) simp
  moreover have "length (map (row_dot A v) [0..<nat (rows A)]) = nat (rows A)"
    by simp
  ultimately show "\<exists>c'. spmv_csr_parallel (orders k) A v c = Inr c' \<and> length c' = nat (rows A)"
    by metis
qed

subsection \<open>The scenarios\<close>

lemma scenario_built: "coo_to_csr scenario_triplets 2 2 = Inr scenario_matrix"
  by code_simp

lemma scenario_product: "multiply_sequential scenario_matrix [1, 1] = Inr [3, 3]"
  by code_simp

lemma scenario_sorted: "sorted_wrt compareTriplets scenario_triplets"
  by code_simp

lemma duplicates_built:
  "coo_to_csr duplicate_triplets 1 1 =
     Inr \<lparr>rows = 1, cols = 1, nnz = 2, row_ptr = [0, 2], col_ind = [0, 0], vals = [1, 1]\<rparr>"
  by code_simp

lemma duplicates_product:
  "multiply_sequential
     \<lparr>rows = 1, cols = 1, nnz = 2, row_ptr = [0, 2], col_ind = [0, 0], vals = [1, 1 :: real]\<rparr> [1] = Inr [2]"
  by code_simp

subsection \<open>The benchmark loop\<close>

lemma fill_random_result:
  assumes "0 \<le> i" "n \<le> int (length v)"
  shows "fill_random draws n i v =
           Inr (map (\<lambda>k. if nat i \<le> k \<and> int k < n then draws k else v ! k) [0..<length v])"
  using assms
proof (induction draws n i v rule: fill_random.induct)
  case (1 draws n i v)
  show ?case
  proof (cases "i < n")
    case False
    then have "map (\<lambda>k. if nat i \<le> k \<and> int k < n then draws k else v ! k) [0..<length v] = v"
      by (intro nth_equalityI) auto
    with False show ?thesis
      by (simp add: fill_random.simps)
  next
    case True
    let ?v = "v[nat i := draws (nat i)]"
    have w: "wr v i (draws (nat i)) = Inr ?v"
      using True "1.prems" by (simp add: wr_def)
    have "fill_random draws n i v = fill_random draws n (i + 1) ?v"
      using True w by (subst fill_random.simps) simp
    also have "\<dots> = Inr (map (\<lambda>k. if nat (i + 1) \<le> k \<and> int k < n then draws k else ?v ! k)
                         [0..<length ?v])"
      using "1.IH" [OF True w] "1.prems" by simp
    also have "map (\<lambda>k. if nat (i + 1) \<le> k \<and> int k < n then draws k else ?v ! k) [0..<length ?v] =
               map (\<lambda>k. if nat i \<le> k \<and> int k < n then draws k else v ! k) [0..<length v]"
    proof (rule nth_equalityI)
      fix k
      assume "k < length (map (\<lambda>k. if nat (i + 1) \<le> k \<and> int k < n then draws k else ?v ! k)
                            [0..<length ?v])"
      then have k: "k < length v" by simp
      show "map (\<lambda>k. if nat (i + 1) \<le> k \<and> int k < n then draws k else ?v ! k) [0..<length ?v] ! k =
            map (\<lambda>k. if nat i \<le> k \<and> int k < n then draws k else v ! k) [0..<length v] ! k"
      proof (cases "k = nat i")
        case True
        have "nat (i + 1) = Suc (nat i)" using "1.prems"(1) by simp
        with True k \<open>i < n\<close> "1.prems" show ?thesis by simp
      next
        case False
        with k "1.prems" show ?thesis by auto
      qed
    qed simp
    finally show ?thesis .
  qed
qed

lemma fill_random_all:
  assumes "0 \<le> n"
  shows "fill_random draws n 0 (replicate (nat n) z) = Inr (map draws [0..<nat n])"
proof -
  have "fill_random draws n 0 (replicate (nat n) z) =
        Inr (map (\<lambda>k. if nat 0 \<le> k \<and> int k < n then draws k else replicate (nat n) z ! k)
               [0..<length (replicate (nat n) z)])"
    using assms by (intro fill_random_result) simp_all
  also have "map (\<lambda>k. if nat 0 \<le> k \<and> int k < n then draws k else replicate (nat n) z ! k)
               [0..<length (replicate (nat n) z)] = map draws [0..<nat n]"
    by (intro nth_equalityI) auto
  finally show ?thesis .
qed

lemma call_kernel_total:
  assumes "kernel_total kern (csr st) (v_input st) (length (c_output st))"
  shows "\<exists>c. kern (calls st) (csr st) (v_input st) (c_output st) = Inr c
            \<and> call_kernel kern st = Inr (st\<lparr>c_output := c, calls := Suc (calls st)\<rparr>)
            \<and> length c = length (c_output st)"
proof -
  obtain c where "kern (calls st) (csr st) (v_input st) (c_output st) = Inr c"
      "length c = length (c_output st)"
    using assms unfolding kernel_total_def by blast
  then have "kern (calls st) (csr st) (v_input st) (c_output st) = Inr c
            \<and> call_kernel kern st = Inr (st\<lparr>c_output := c, calls := Suc (calls st)\<rparr>)
            \<and> length c = length (c_output st)"
    by (simp add: call_kernel_def)
  then show ?thesis by (rule exI)
qed

lemma timed_runs_result:
  assumes "0 \<le> run" "num_runs \<le> int (length (times_ms st))"
    and "kernel_total kern (csr st) (v_input st) (length (c_output st))"
  shows "\<exists>st'. timed_runs kern wtime elapsed_ms num_runs run st = Inr st'
          \<and> calls st' = calls st + nat (num_runs - run)
          \<and> csr st' = csr st \<and> v_input st' = v_input st
          \<and> length (c_output st') = length (c_output st)
          \<and> length (times_ms st') = length (times_ms st)
          \<and> call_seq kern (csr st) (v_input st) [calls st..<calls st + nat (num_runs - run)]
                (c_output st) = Inr (c_output st')
          \<and> (\<forall>r<length (times_ms st). times_ms st' ! r =
                (if nat run \<le> r \<and> int r < num_runs
                 then elapsed_ms (wtime (ticks st + 2 * (r - nat run)))
                        (wtime (ticks st + 2 * (r - nat run) + 1))
                 else times_ms st ! r))"
  using assms
proof (induction kern wtime elapsed_ms num_runs run st rule: timed_runs.induct)
  case (1 kern wtime elapsed_ms num_runs run st)
  show ?case
  proof (cases "run < num_runs")
    case False
    then have "\<not> (nat run \<le> r \<and> int r < num_runs)" for r
      using "1.prems"(1) by linarith
    with False show ?thesis by (auto simp: timed_runs.simps)
  next
    case True
    obtain c where kc: "kern (calls st) (csr st) (v_input st) (c_output st) = Inr c"
      and ck: "call_kernel kern st = Inr (st\<lparr>c_output := c, calls := Suc (calls st)\<rparr>)"
      and lc: "length c = length (c_output st)"
      using call_kernel_total [OF "1.prems"(3)] by blast
    let ?st1 = "st\<lparr>c_output := c, calls := Suc (calls st)\<rparr>"
    let ?d = "elapsed_ms (wtime (ticks st)) (wtime (ticks st + 1))"
    let ?tm = "(times_ms st)[nat run := ?d]"
    let ?st2 = "?st1\<lparr>times_ms := ?tm, ticks := ticks st + 2\<rparr>"
    have w: "wr (times_ms ?st1) run ?d = Inr ?tm"
      using True "1.prems" by (simp add: wr_def)
    have step: "timed_runs kern wtime elapsed_ms num_runs run st =
                timed_runs kern wtime elapsed_ms num_runs (run + 1) ?st2"
      using True ck w by (subst timed_runs.simps) simp
    have kt: "kernel_total kern (csr ?st2) (v_input ?st2) (length (c_output ?st2))"
      using "1.prems"(3) lc by simp
    obtain st' where r: "timed_runs kern wtime elapsed_ms num_runs (run + 1) ?st2 = Inr st'"
      and c: "calls st' = calls ?st2 + nat (num_runs - (run + 1))"
      and k: "csr st' = csr ?st2" "v_input st' = v_input ?st2"
             "length (c_output st') = length (c_output ?st2)"
             "length (times_ms st') = length (times_ms ?st2)"
      and cs: "call_seq kern (csr ?st2) (v_input ?st2)
                 [calls ?st2..<calls ?st2 + nat (num_runs - (run + 1))] (c_output ?st2) =
               Inr (c_output st')"
      and t: "\<forall>r<length (times_ms ?st2). times_ms st' ! r =
                (if nat (run + 1) \<le> r \<and> int r < num_runs
                 then elapsed_ms (wtime (ticks ?st2 + 2 * (r - nat (run + 1))))
                        (wtime (ticks ?st2 + 2 * (r - nat (run + 1)) + 1))
                 else times_ms ?st2 ! r)"
      using "1.IH" [OF True ck w _ _ kt] "1.prems"(1,2) by auto
    have c': "calls st' = calls st + nat (num_runs - run)"
      using c True by simp
    have n: "nat (num_runs - run) = Suc (nat (num_runs - (run + 1)))"
      using True by simp
    have "[calls st..<calls st + nat (num_runs - run)] =
          calls st # [Suc (calls st)..<Suc (calls st) + nat (num_runs - (run + 1))]"
      unfolding n by (simp add: upt_conv_Cons)
    then have cs': "call_seq kern (csr st) (v_input st) [calls st..<calls st + nat (num_runs - run)]
                (c_output st) = Inr (c_output st')"
      using kc cs by simp
    have t': "\<forall>r<length (times_ms st). times_ms st' ! r =
                (if nat run \<le> r \<and> int r < num_runs
                 then elapsed_ms (wtime (ticks st + 2 * (r - nat run)))
                        (wtime (ticks st + 2 * (r - nat run) + 1))
                 else times_ms st ! r)"
    proof (intro allI impI)
      fix r assume r: "r < length (times_ms st)"
      have run1: "nat (run + 1) = Suc (nat run)" using "1.prems"(1) by simp
      consider "r < nat run" | "r = nat run" | "nat run < r"
        by linarith
      then show "times_ms st' ! r =
                (if nat run \<le> r \<and> int r < num_runs
                 then elapsed_ms (wtime (ticks st + 2 * (r - nat run)))
                        (wtime (ticks st + 2 * (r - nat run) + 1))
                 else times_ms st ! r)"
      proof cases
        case 1
        with t r run1 show ?thesis by simp
      next
        case 2
        with t r run1 True "1.prems"(1) show ?thesis by simp
      next
        case 3
        then have "2 * (r - nat run) = 2 + 2 * (r - Suc (nat run))" by simp
        with 3 t r run1 show ?thesis by simp
      qed
    qed
    show ?thesis
      unfolding step using r c' k t' lc cs' by simp
  qed
qed

lemma benchmark_result:
  assumes "0 \<le> n" "0 \<le> rows A" "0 \<le> cols A"
    and "kernel_total kern A (map (dist_gen to_double canon) [0..<nat (cols A)]) (nat (rows A))"
  shows "\<exists>st. benchmark kern to_double canon wtime elapsed_ms n A = Inr st
          \<and> csr st = A \<and> v_input st = map (dist_gen to_double canon) [0..<nat (cols A)]
          \<and> calls st = 1 + nat n
          \<and> call_seq kern A (map (dist_gen to_double canon) [0..<nat (cols A)]) [0..<1 + nat n]
                (replicate (nat (rows A)) 0) = Inr (c_output st)
          \<and> times_ms st = map (\<lambda>r. elapsed_ms (wtime (2 * r)) (wtime (2 * r + 1))) [0..<nat n]"
proof -
  define v where "v = map (dist_gen to_double canon) [0..<nat (cols A)]"
  define st0 where "st0 = \<lparr>csr = A, v_input = v, c_output = replicate (nat (rows A)) 0,
                           times_ms = [], calls = 0, ticks = 0\<rparr>"
  have a1: "alloc (cols A) (0::'a) = Inr (replicate (nat (cols A)) 0)"
    using assms(3) by (simp add: alloc_def)
  have fr: "fill_random (dist_gen to_double canon) (cols A) 0 (replicate (nat (cols A)) (0::'a)) =
            Inr v"
    unfolding v_def by (rule fill_random_all [OF assms(3)])
  have a2: "alloc (rows A) (0::'a) = Inr (replicate (nat (rows A)) 0)"
    using assms(2) by (simp add: alloc_def)
  have a3: "alloc n (0::'a) = Inr (replicate (nat n) 0)"
    using assms(1) by (simp add: alloc_def)
  have sel0: "csr st0 = A" "v_input st0 = v" "length (c_output st0) = nat (rows A)"
             "calls st0 = 0" "ticks st0 = 0"
    by (simp_all add: st0_def)
  have c0: "c_output st0 = replicate (nat (rows A)) 0"
    by (simp add: st0_def)
  have "kernel_total kern (csr st0) (v_input st0) (length (c_output st0))"
    using assms(4) by (simp only: sel0 v_def)
  from call_kernel_total [OF this]
  obtain c where kc0: "kern (calls st0) (csr st0) (v_input st0) (c_output st0) = Inr c"
    and ck: "call_kernel kern st0 = Inr (st0\<lparr>c_output := c, calls := Suc (calls st0)\<rparr>)"
    and lc0: "length c = length (c_output st0)"
    by (elim exE conjE)
  have kc: "kern 0 A v (replicate (nat (rows A)) 0) = Inr c"
    using kc0 by (simp only: sel0 c0)
  have lc: "length c = nat (rows A)"
    using lc0 by (simp only: sel0)
  define st1 where "st1 = st0\<lparr>c_output := c, calls := Suc (calls st0), times_ms := replicate (nat n) 0\<rparr>"
  have sel1: "csr st1 = A" "v_input st1 = v" "length (c_output st1) = nat (rows A)"
             "calls st1 = 1" "ticks st1 = 0" "times_ms st1 = replicate (nat n) 0"
    using lc by (simp_all add: st1_def sel0)
  have c1: "c_output st1 = c"
    by (simp add: st1_def)
  have kt: "kernel_total kern (csr st1) (v_input st1) (length (c_output st1))"
    using assms(4) by (simp only: sel1 v_def)
  have b: "0 \<le> (0::int)" "n \<le> int (length (times_ms st1))"
    using assms(1) by (simp_all add: sel1)
  from timed_runs_result [OF b kt, of wtime elapsed_ms]
  obtain st where r: "timed_runs kern wtime elapsed_ms n 0 st1 = Inr st"
    and f: "calls st = calls st1 + nat (n - 0)" "csr st = csr st1" "v_input st = v_input st1"
           "length (times_ms st) = length (times_ms st1)"
    and cs: "call_seq kern (csr st1) (v_input st1) [calls st1..<calls st1 + nat (n - 0)]
               (c_output st1) = Inr (c_output st)"
    and t: "\<forall>r<length (times_ms st1). times_ms st ! r =
                (if nat 0 \<le> r \<and> int r < n
                 then elapsed_ms (wtime (ticks st1 + 2 * (r - nat 0)))
                        (wtime (ticks st1 + 2 * (r - nat 0) + 1))
                 else times_ms st1 ! r)"
    by (elim exE conjE)
  have tm: "times_ms st = map (\<lambda>r. elapsed_ms (wtime (2 * r)) (wtime (2 * r + 1))) [0..<nat n]"
  proof (rule nth_equalityI)
    show "length (times_ms st) =
          length (map (\<lambda>r. elapsed_ms (wtime (2 * r)) (wtime (2 * r + 1))) [0..<nat n])"
      using f(4) by (simp add: sel1)
  next
    fix r assume "r < length (times_ms st)"
    then have r: "r < nat n" using f(4) by (simp add: sel1)
    then have "int r < n" by linarith
    with r t show "times_ms st ! r =
                 map (\<lambda>r. elapsed_ms (wtime (2 * r)) (wtime (2 * r + 1))) [0..<nat n] ! r"
      by (simp add: sel1)
  qed
  have cs1: "call_seq kern A v [1..<1 + nat n] c = Inr (c_output st)"
    using cs by (simp add: sel1 c1)
  have "[0..<1 + nat n] = 0 # [1..<1 + nat n]"
    by (simp add: upt_conv_Cons)
  then have cs0: "call_seq kern A v [0..<1 + nat n] (replicate (nat (rows A)) 0) = Inr (c_output st)"
    using kc cs1 by simp
  have "benchmark kern to_double canon wtime elapsed_ms n A =
        timed_runs kern wtime elapsed_ms n 0 st1"
    unfolding benchmark_def st1_def
    by (simp only: a1 fr a2 ck [unfolded st0_def] a3 sum.case st0_def)
  then have "benchmark kern to_double canon wtime elapsed_ms n A = Inr st"
    using r by simp
  moreover have "csr st = A" "v_input st = v" "calls st = 1 + nat n"
    using f by (simp_all add: sel1)
  ultimately show ?thesis
    using tm cs0 unfolding v_def by blast
qed

lemma dist_gen_range:
  fixes to_double :: "real \<Rightarrow> 'd::ord"
  assumes "0 \<le> canon k \<and> canon k < 1" "\<forall>x y. x \<le> y \<longrightarrow> to_double x \<le> to_double y"
  shows "to_double (- 1000) \<le> dist_gen to_double canon k
         \<and> dist_gen to_double canon k \<le> to_double 1000"
proof -
  let ?x = "uniform_real_distribution (- 1000) 1000 (canon k)"
  have "- 1000 \<le> ?x" "?x \<le> 1000"
    using assms(1) by (simp_all add: uniform_real_distribution_def)
  then show ?thesis
    using assms(2) by (simp add: dist_gen_def)
qed

lemma read_triplets_exit:
  "read_triplets n entries triplets = Inl (Exit e) \<Longrightarrow> e = MatrixFileError"
  by (induction n entries triplets rule: read_triplets.induct) (auto split: if_splits)

lemma csrpar_main_exit:
  assumes "configure schedule_str chunk_arg threads_arg = Inr cfg"
    and "csrpar_main schedule_str chunk_arg threads_arg file std_sort orders to_double canon wtime
           elapsed_ms = Inl (Exit e)"
  shows "e = MatrixFileError"
proof (cases "file")
  case CannotOpen
  with assms show ?thesis
    by (simp add: csrpar_main_def)
next
  case (Mtx n_rows n_cols n_nnz entries)
  show ?thesis
  proof (cases "read_triplets (nat n_nnz) entries []")
    case (Inl x)
    with assms Mtx read_triplets_exit [of "nat n_nnz" entries "[]" e] show ?thesis
      by (simp add: csrpar_main_def split: if_splits)
  next
    case (Inr triplets)
    with assms Mtx show ?thesis
      by (simp add: csrpar_main_def split: if_splits sum.splits)
  qed
qed

section \<open>The claims\<close>

text \<open>
  Claim C1. For a matrix that satisfies the CSR invariants and a vector of length
  \<open>cols\<close>, the sequential kernel returns a vector of length \<open>rows\<close> whose entry
  \<open>i\<close> is the sum of \<open>values[k] * v[col_ind[k]]\<close> over \<open>k\<close> from \<open>row_ptr[i]\<close> to
  \<open>row_ptr[i+1] - 1\<close>, added in ascending \<open>k\<close> starting from \<open>0.0\<close>
  (\<open>row_dot\<close>); and the 2 by 2 scenario with \<open>v = [1.0, 1.0]\<close> gives \<open>[3.0, 3.0]\<close>,
  whatever order \<open>std::sort\<close> leaves the triplets in.
\<close>

theorem multiply_sequential_row_sums:
  "(csr_invariants A \<and> int (length v) = cols A \<longrightarrow>
      (\<exists>c. multiply_sequential A v = Inr c \<and> length c = nat (rows A)
           \<and> (\<forall>i<nat (rows A). c ! i = row_dot A v i)))
   \<and> (\<forall>s. std_sort_result scenario_triplets s \<longrightarrow>
         (\<exists>A2. coo_to_csr s 2 2 = Inr A2 \<and> multiply_sequential A2 [1, 1] = Inr [3, 3]))"
proof (intro conjI impI allI)
  assume h: "csr_invariants A \<and> int (length v) = cols A"
  then have "multiply_sequential A v = Inr (map (row_dot A v) [0..<nat (rows A)])"
    by (simp add: multiply_sequential_valid)
  then show "\<exists>c. multiply_sequential A v = Inr c \<and> length c = nat (rows A)
           \<and> (\<forall>i<nat (rows A). c ! i = row_dot A v i)"
    by simp
next
  fix s
  assume "std_sort_result scenario_triplets s"
  then have "s = scenario_triplets"
    by (rule std_sort_unique [OF scenario_sorted])
  then show "\<exists>A2. coo_to_csr s 2 2 = Inr A2 \<and> multiply_sequential A2 [1, 1] = Inr [3, 3]"
    by (simp add: scenario_built scenario_product)
qed

theorem multiply_sequential_row_sums_witness:
  "csr_invariants scenario_matrix \<and> int (length [1, 1 :: real]) = cols scenario_matrix
   \<and> (\<exists>c. multiply_sequential scenario_matrix [1, 1] = Inr c \<and> length c = nat (rows scenario_matrix)
           \<and> (\<forall>i<nat (rows scenario_matrix). c ! i = row_dot scenario_matrix [1, 1] i))
   \<and> std_sort_result scenario_triplets scenario_triplets
   \<and> (\<exists>A2. coo_to_csr scenario_triplets 2 2 = Inr A2 \<and> multiply_sequential A2 [1, 1] = Inr [3, 3])"
proof -
  have h1: "csr_invariants scenario_matrix \<and> int (length [1, 1 :: real]) = cols scenario_matrix"
    by code_simp
  have h2: "std_sort_result scenario_triplets scenario_triplets"
    by code_simp
  show ?thesis
    using h1 h2 multiply_sequential_row_sums [of scenario_matrix "[1, 1]"] by blast
qed

text \<open>
  Claim C2. For every matrix, vector and output buffer, and every order in which
  OpenMP runs the row iterations (every thread count, schedule kind and chunk size
  gives such an order), the parallel kernel returns what the sequential kernel returns:
  the same values, or the same fault when the matrix is not well formed.
\<close>

theorem parallel_bit_identical:
  "omp_for_order (rows A) order \<Longrightarrow>
     multiply_parallel order A v = multiply_sequential A v
     \<and> spmv_csr_parallel order A v c = spmv_csr_sequential A v c"
  by (simp add: multiply_parallel_sequential spmv_parallel_sequential)

theorem parallel_bit_identical_witness:
  "omp_for_order (rows scenario_matrix) [1, 0]
   \<and> multiply_parallel [1, 0] scenario_matrix [1, 1] = multiply_sequential scenario_matrix [1, 1]
   \<and> spmv_csr_parallel [1, 0] scenario_matrix [1, 1] [7, 7] = spmv_csr_sequential scenario_matrix [1, 1] [7, 7]"
proof -
  have h: "omp_for_order (rows scenario_matrix) [1, 0]"
    by code_simp
  show ?thesis
    using h parallel_bit_identical [OF h, of "[1, 1]" "[7, 7]"] by simp
qed

text \<open>
  Claim C3. For a valid triplet set, with \<open>rows\<close> less than \<open>INT_MAX\<close> so that \<open>rows + 1\<close>
  is an \<open>int\<close>, the conversion succeeds and the matrix satisfies the CSR invariants:
  \<open>row_ptr[0] = 0\<close>, \<open>row_ptr[rows] = nnz\<close>, \<open>row_ptr\<close> never decreases, every column
  index lies in \<open>[0, cols)\<close>, and the column indices of each row are ascending. This
  holds for \<open>build\<close> and for every result \<open>std::sort\<close> may give.
\<close>

theorem build_invariants:
  assumes "valid_input ts n_rows n_cols" "n_rows < INT_MAX"
  shows "(\<exists>A. build ts n_rows n_cols = Inr A \<and> csr_invariants A
             \<and> rows A = n_rows \<and> cols A = n_cols \<and> nnz A = int (length ts))
       \<and> (\<forall>s. std_sort_result ts s \<longrightarrow>
            (\<exists>A. coo_to_csr s n_rows n_cols = Inr A \<and> csr_invariants A
                \<and> rows A = n_rows \<and> cols A = n_cols \<and> nnz A = int (length ts)))"
proof -
  have gen: "\<exists>A. coo_to_csr s n_rows n_cols = Inr A \<and> csr_invariants A
                \<and> rows A = n_rows \<and> cols A = n_cols \<and> nnz A = int (length ts)"
    if s: "std_sort_result ts s" for s
  proof -
    have "coo_to_csr s n_rows n_cols = Inr (csr_of s n_rows n_cols)"
      by (rule coo_to_csr_valid [OF assms(1) s assms(2)])
    moreover have "csr_invariants (csr_of s n_rows n_cols)"
      by (rule csr_of_invariants [OF assms(1) s])
    ultimately show ?thesis
      by (simp add: std_sort_length [OF s])
  qed
  show ?thesis
    using gen [OF sort_triplets_result] gen by (simp add: build_def)
qed

theorem build_invariants_witness:
  "valid_input scenario_triplets 2 2 \<and> 2 < INT_MAX
   \<and> (\<exists>A. build scenario_triplets 2 2 = Inr A \<and> csr_invariants A
             \<and> rows A = 2 \<and> cols A = 2 \<and> nnz A = int (length scenario_triplets))
   \<and> std_sort_result scenario_triplets scenario_triplets
   \<and> (\<exists>A. coo_to_csr scenario_triplets 2 2 = Inr A \<and> csr_invariants A
             \<and> rows A = 2 \<and> cols A = 2 \<and> nnz A = int (length scenario_triplets))"
proof -
  have h1: "valid_input scenario_triplets 2 2"
    by code_simp
  have h2: "std_sort_result scenario_triplets scenario_triplets"
    by code_simp
  have h3: "2 < INT_MAX"
    by (simp add: INT_MAX_def)
  show ?thesis
    using h1 h2 h3 build_invariants [OF h1 h3] by blast
qed

text \<open>
  Claim C4, amended. A schedule other than \<open>static\<close>, \<open>dynamic\<close> and \<open>guided\<close> is rejected:
  \<open>main\<close> returns 1 before it opens the matrix file, so before any row is processed,
  whatever the file holds. The number of threads is not checked for its range: with a
  known schedule every number of threads, also zero and the negative ones, is accepted
  as it is, and \<open>main\<close> does not end with a configuration error.
\<close>

theorem invalid_schedule_rejected:
  "(schedule_str \<noteq> ''static'' \<and> schedule_str \<noteq> ''dynamic'' \<and> schedule_str \<noteq> ''guided'' \<longrightarrow>
      configure schedule_str (Some chunk) (Some threads) = Inl InvalidSchedule
      \<and> csrpar_main schedule_str (Some chunk) (Some threads) file std_sort orders to_double canon
          wtime elapsed_ms = Inl (Exit InvalidSchedule)
      \<and> (\<exists>e. configure schedule_str chunk_arg threads_arg = Inl e
             \<and> csrpar_main schedule_str chunk_arg threads_arg file std_sort orders to_double canon
                  wtime elapsed_ms = Inl (Exit e)))
   \<and> (schedule_str = ''static'' \<or> schedule_str = ''dynamic'' \<or> schedule_str = ''guided'' \<longrightarrow>
        (\<exists>cfg. configure schedule_str (Some chunk) (Some threads) = Inr cfg
              \<and> chunk_size cfg = chunk \<and> num_threads cfg = threads)
        \<and> csrpar_main schedule_str (Some chunk) (Some threads) file std_sort orders to_double canon
            wtime elapsed_ms \<noteq> Inl (Exit InvalidSchedule)
        \<and> csrpar_main schedule_str (Some chunk) (Some threads) file std_sort orders to_double canon
            wtime elapsed_ms \<noteq> Inl (Exit NotInteger))"
proof (intro conjI impI)
  assume h: "schedule_str \<noteq> ''static'' \<and> schedule_str \<noteq> ''dynamic'' \<and> schedule_str \<noteq> ''guided''"
  then show c: "configure schedule_str (Some chunk) (Some threads) = Inl InvalidSchedule"
    by (simp add: configure_def)
  then show "csrpar_main schedule_str (Some chunk) (Some threads) file std_sort orders to_double
               canon wtime elapsed_ms = Inl (Exit InvalidSchedule)"
    by (simp add: csrpar_main_def)
  have "\<exists>e. configure schedule_str chunk_arg threads_arg = Inl e"
    using h by (cases chunk_arg; cases threads_arg) (simp_all add: configure_def)
  then obtain e where e: "configure schedule_str chunk_arg threads_arg = Inl e" ..
  then have "csrpar_main schedule_str chunk_arg threads_arg file std_sort orders to_double canon
               wtime elapsed_ms = Inl (Exit e)"
    by (simp add: csrpar_main_def)
  with e show "\<exists>e. configure schedule_str chunk_arg threads_arg = Inl e
             \<and> csrpar_main schedule_str chunk_arg threads_arg file std_sort orders to_double canon
                  wtime elapsed_ms = Inl (Exit e)"
    by blast
next
  assume h: "schedule_str = ''static'' \<or> schedule_str = ''dynamic'' \<or> schedule_str = ''guided''"
  then show "\<exists>cfg. configure schedule_str (Some chunk) (Some threads) = Inr cfg
              \<and> chunk_size cfg = chunk \<and> num_threads cfg = threads"
    by (auto simp: configure_def)
  then obtain cfg where c: "configure schedule_str (Some chunk) (Some threads) = Inr cfg"
    by blast
  show "csrpar_main schedule_str (Some chunk) (Some threads) file std_sort orders to_double canon
            wtime elapsed_ms \<noteq> Inl (Exit InvalidSchedule)"
    using csrpar_main_exit [OF c, of "file" std_sort orders to_double canon wtime elapsed_ms
        InvalidSchedule]
    by auto
  show "csrpar_main schedule_str (Some chunk) (Some threads) file std_sort orders to_double canon
            wtime elapsed_ms \<noteq> Inl (Exit NotInteger)"
    using csrpar_main_exit [OF c, of "file" std_sort orders to_double canon wtime elapsed_ms
        NotInteger]
    by auto
qed

theorem invalid_schedule_rejected_witness:
  "(''bogus'' \<noteq> ''static'' \<and> ''bogus'' \<noteq> ''dynamic'' \<and> ''bogus'' \<noteq> ''guided'')
   \<and> configure ''bogus'' (Some 10) (Some 4) = Inl InvalidSchedule
   \<and> csrpar_main ''bogus'' (Some 10) (Some 4) scenario_file sort_triplets (\<lambda>cfg k. [0, 1])
        (\<lambda>x. x) (\<lambda>k. 1 / 2) (\<lambda>k. real k) (\<lambda>a b. (b - a) * 1000) = Inl (Exit InvalidSchedule)
   \<and> (\<exists>cfg. configure ''guided'' (Some 10) (Some (- 2)) = Inr cfg
          \<and> chunk_size cfg = 10 \<and> num_threads cfg = - 2)
   \<and> csrpar_main ''guided'' (Some 10) (Some (- 2)) scenario_file sort_triplets (\<lambda>cfg k. [0, 1])
        (\<lambda>x. x) (\<lambda>k. 1 / 2) (\<lambda>k. real k) (\<lambda>a b. (b - a) * 1000) \<noteq> Inl (Exit InvalidSchedule)"
proof -
  note t = invalid_schedule_rejected [of "''bogus''" 10 4 scenario_file sort_triplets
        "\<lambda>cfg k. [0, 1]" "\<lambda>x. x" "\<lambda>k. 1 / 2" "\<lambda>k. real k" "\<lambda>a b. (b - a) * 1000"
        "Some 10" "Some 4"]
  note w = invalid_schedule_rejected [of "''guided''" 10 "- 2" scenario_file sort_triplets
        "\<lambda>cfg k. [0, 1]" "\<lambda>x. x" "\<lambda>k. 1 / 2" "\<lambda>k. real k" "\<lambda>a b. (b - a) * 1000"
        "Some 10" "Some (- 2)"]
  have h1: "''bogus'' \<noteq> ''static'' \<and> ''bogus'' \<noteq> ''dynamic'' \<and> ''bogus'' \<noteq> ''guided''"
    by simp
  have h3: "''guided'' = ''static'' \<or> ''guided'' = ''dynamic'' \<or> ''guided'' = ''guided''"
    by simp
  note a = mp [OF conjunct1 [OF t] h1]
  note b = mp [OF conjunct2 [OF w] h3]
  show ?thesis
    by (intro conjI h1 [THEN conjunct1] h1 [THEN conjunct2, THEN conjunct1]
        h1 [THEN conjunct2, THEN conjunct2]
        a [THEN conjunct1] a [THEN conjunct2, THEN conjunct1]
        b [THEN conjunct1] b [THEN conjunct2, THEN conjunct1])
qed

text \<open>
  The specification's statement of C4 fails for the number of threads: \<open>threads = 0\<close>
  with the schedule \<open>static\<close> is not rejected; the configuration is accepted with
  \<open>num_threads = 0\<close>.
\<close>

theorem zero_threads_accepted:
  "configure ''static'' (Some 10) (Some 0) =
     Inr \<lparr>sched_kind = omp_sched_static, chunk_size = 10, num_threads = 0\<rparr>"
  by (simp add: configure_def)




text \<open>
  Claim C6. Triplets with the same row and column are not merged. For a valid triplet
  set, with \<open>rows\<close> less than \<open>INT_MAX\<close> so that \<open>rows + 1\<close> is an \<open>int\<close>, the entries
  stored for row \<open>i\<close> are, as a multiset, the column and value of every
  triplet of row \<open>i\<close>, each as many times as it occurs; both kernels return for row
  \<open>i\<close> the products of all these entries, added one after the other. The triplet
  \<open>(0,0,1.0)\<close> twice, for a 1 by 1 matrix and \<open>v = [1.0]\<close>, gives \<open>[2.0]\<close> from both
  kernels.
\<close>

theorem duplicates_not_merged:
  "(valid_input ts n_rows n_cols \<and> n_rows < INT_MAX \<and> std_sort_result ts s
      \<and> int (length v) = n_cols \<longrightarrow>
      (\<exists>A c. coo_to_csr s n_rows n_cols = Inr A
           \<and> length (col_ind A) = length ts \<and> length (vals A) = length ts
           \<and> multiply_sequential A v = Inr c
           \<and> (\<forall>order. omp_for_order n_rows order \<longrightarrow> multiply_parallel order A v = Inr c)
           \<and> (\<forall>i<nat n_rows.
                 mset (row_entries A i) =
                   mset (map (\<lambda>t. (col t, val t)) (filter (\<lambda>t. row t = int i) ts))
                 \<and> c ! i = foldl (\<lambda>acc (cj, x). acc + x * v ! nat cj) 0 (row_entries A i))))
   \<and> (\<forall>s2 order. std_sort_result duplicate_triplets s2 \<and> omp_for_order 1 order \<longrightarrow>
         (\<exists>A2. coo_to_csr s2 1 1 = Inr A2 \<and> multiply_sequential A2 [1] = Inr [2]
               \<and> multiply_parallel order A2 [1] = Inr [2]))"
proof (intro conjI impI allI)
  assume h: "valid_input ts n_rows n_cols \<and> n_rows < INT_MAX \<and> std_sort_result ts s
             \<and> int (length v) = n_cols"
  let ?A = "csr_of s n_rows n_cols"
  let ?c = "map (row_dot ?A v) [0..<nat n_rows]"
  have vi: "valid_input ts n_rows n_cols" and ss: "std_sort_result ts s"
    and bd: "n_rows < INT_MAX" using h by simp_all
  have inv: "csr_invariants ?A" by (rule csr_of_invariants [OF vi ss])
  have b: "coo_to_csr s n_rows n_cols = Inr ?A" by (rule coo_to_csr_valid [OF vi ss bd])
  have len: "length (col_ind ?A) = length ts" "length (vals ?A) = length ts"
    by (simp_all add: std_sort_length [OF ss])
  have sq: "multiply_sequential ?A v = Inr ?c"
    using multiply_sequential_valid [OF inv, of v] h by simp
  have pr: "\<forall>order. omp_for_order n_rows order \<longrightarrow> multiply_parallel order ?A v = Inr ?c"
    using sq by (simp add: multiply_parallel_sequential)
  have rows: "\<forall>i<nat n_rows.
                 mset (row_entries ?A i) =
                   mset (map (\<lambda>t. (col t, val t)) (filter (\<lambda>t. row t = int i) ts))
                 \<and> ?c ! i = foldl (\<lambda>acc (cj, x). acc + x * v ! nat cj) 0 (row_entries ?A i)"
  proof (intro allI impI conjI)
    fix i assume i: "i < nat n_rows"
    then have i': "int i < n_rows" by simp
    have "row_entries ?A i = map (\<lambda>t. (col t, val t)) (filter (\<lambda>t. row t = int i) s)"
      by (rule row_entries_csr_of [OF sorted_input_facts [OF vi ss] i'])
    then show "mset (row_entries ?A i) =
                   mset (map (\<lambda>t. (col t, val t)) (filter (\<lambda>t. row t = int i) ts))"
      using ss by (simp add: std_sort_result_def)
    have "row_dot ?A v i = foldl (\<lambda>acc (cj, x). acc + x * v ! nat cj) 0 (row_entries ?A i)"
      using i by (intro row_dot_entries [OF inv]) simp
    with i show "?c ! i = foldl (\<lambda>acc (cj, x). acc + x * v ! nat cj) 0 (row_entries ?A i)"
      by simp
  qed
  show "\<exists>A c. coo_to_csr s n_rows n_cols = Inr A
           \<and> length (col_ind A) = length ts \<and> length (vals A) = length ts
           \<and> multiply_sequential A v = Inr c
           \<and> (\<forall>order. omp_for_order n_rows order \<longrightarrow> multiply_parallel order A v = Inr c)
           \<and> (\<forall>i<nat n_rows.
                 mset (row_entries A i) =
                   mset (map (\<lambda>t. (col t, val t)) (filter (\<lambda>t. row t = int i) ts))
                 \<and> c ! i = foldl (\<lambda>acc (cj, x). acc + x * v ! nat cj) 0 (row_entries A i))"
    using b len sq pr rows by blast
next
  fix s2 order
  assume h: "std_sort_result duplicate_triplets s2 \<and> omp_for_order 1 order"
  let ?A = "\<lparr>rows = 1, cols = 1, nnz = 2, row_ptr = [0, 2], col_ind = [0, 0], vals = [1, 1 :: real]\<rparr>"
  have "s2 = duplicate_triplets" using h by (simp add: std_sort_duplicates)
  then have b: "coo_to_csr s2 1 1 = Inr ?A" by (simp add: duplicates_built)
  have "omp_for_order (rows ?A) order" using h by simp
  then have "multiply_parallel order ?A [1] = multiply_sequential ?A [1]"
    by (rule multiply_parallel_sequential)
  with b show "\<exists>A2. coo_to_csr s2 1 1 = Inr A2 \<and> multiply_sequential A2 [1] = Inr [2]
               \<and> multiply_parallel order A2 [1] = Inr [2]"
    by (simp add: duplicates_product)
qed

theorem duplicates_not_merged_witness:
  "valid_input duplicate_triplets 1 1 \<and> 1 < INT_MAX
   \<and> std_sort_result duplicate_triplets duplicate_triplets
   \<and> int (length [1::real]) = 1 \<and> omp_for_order 1 [0]
   \<and> (\<exists>A c. coo_to_csr duplicate_triplets 1 1 = Inr A
           \<and> length (col_ind A) = length duplicate_triplets
           \<and> length (vals A) = length duplicate_triplets
           \<and> multiply_sequential A [1] = Inr c
           \<and> (\<forall>order. omp_for_order 1 order \<longrightarrow> multiply_parallel order A [1] = Inr c)
           \<and> (\<forall>i<nat 1.
                 mset (row_entries A i) =
                   mset (map (\<lambda>t. (col t, val t)) (filter (\<lambda>t. row t = int i) duplicate_triplets))
                 \<and> c ! i = foldl (\<lambda>acc (cj, x). acc + x * [1] ! nat cj) 0 (row_entries A i)))
   \<and> (\<exists>A2. coo_to_csr duplicate_triplets 1 1 = Inr A2 \<and> multiply_sequential A2 [1] = Inr [2]
           \<and> multiply_parallel [0] A2 [1] = Inr [2])"
proof -
  have h1: "valid_input duplicate_triplets 1 1 \<and> 1 < INT_MAX
      \<and> std_sort_result duplicate_triplets duplicate_triplets \<and> int (length [1::real]) = 1"
    by code_simp
  have h2: "omp_for_order 1 [0]"
    by code_simp
  show ?thesis
    using h1 h2 duplicates_not_merged [of duplicate_triplets 1 1 duplicate_triplets "[1]"]
    by blast
qed

text \<open>
  Claim C7. For a valid triplet set, with \<open>rows\<close> less than \<open>INT_MAX\<close> so that
  \<open>rows + 1\<close> is an \<open>int\<close>, in which row \<open>i\<close> has no triplet, the matrix has
  \<open>row_ptr[i] = row_ptr[i+1]\<close>, whether the row is skipped between two others or lies
  after the last triplet, and both kernels return \<open>0.0\<close> for row \<open>i\<close>, whatever the other
  rows hold.
\<close>

theorem empty_row_gives_zero:
  assumes "valid_input ts n_rows n_cols" "n_rows < INT_MAX" "std_sort_result ts s"
    and "int i < n_rows" "\<forall>t\<in>set ts. row t \<noteq> int i"
    and "int (length v) = n_cols" "omp_for_order n_rows order"
  shows "\<exists>A c. coo_to_csr s n_rows n_cols = Inr A \<and> row_ptr A ! i = row_ptr A ! (i + 1)
           \<and> multiply_sequential A v = Inr c \<and> multiply_parallel order A v = Inr c
           \<and> c ! i = 0"
proof -
  let ?A = "csr_of s n_rows n_cols"
  let ?c = "map (row_dot ?A v) [0..<nat n_rows]"
  have inv: "csr_invariants ?A" by (rule csr_of_invariants [OF assms(1,3)])
  have b: "coo_to_csr s n_rows n_cols = Inr ?A" by (rule coo_to_csr_valid [OF assms(1,3,2)])
  have "\<forall>t\<in>set s. row t \<noteq> int i"
    using assms(5) std_sort_set [OF assms(3)] by simp
  then have "row_start s i = row_start s (Suc i)"
    by (intro empty_row_ptr sorted_input_facts(2) [OF assms(1,3)])
  then have rp: "row_ptr ?A ! i = row_ptr ?A ! (i + 1)"
    using assms(4) by simp
  have sq: "multiply_sequential ?A v = Inr ?c"
    using multiply_sequential_valid [OF inv, of v] assms(6) by simp
  have pr: "multiply_parallel order ?A v = Inr ?c"
    using sq assms(7) by (simp add: multiply_parallel_sequential)
  have "row_dot ?A v i = 0"
    using rp by (simp add: row_dot_def)
  then have "?c ! i = 0" using assms(4) by simp
  with b rp sq pr show ?thesis by blast
qed

theorem empty_row_gives_zero_witness:
  "valid_input gap_triplets 4 2 \<and> 4 < INT_MAX \<and> std_sort_result gap_triplets gap_sorted
   \<and> int 1 < (4::int) \<and> list_all (\<lambda>t. row t \<noteq> int 1) gap_triplets
   \<and> int 3 < (4::int) \<and> list_all (\<lambda>t. row t \<noteq> int 3) gap_triplets
   \<and> int (length [1, 1 :: real]) = 2 \<and> omp_for_order 4 [3, 1, 0, 2]
   \<and> (\<exists>A c. coo_to_csr gap_sorted 4 2 = Inr A \<and> row_ptr A ! 1 = row_ptr A ! (1 + 1)
           \<and> multiply_sequential A [1, 1] = Inr c \<and> multiply_parallel [3, 1, 0, 2] A [1, 1] = Inr c
           \<and> c ! 1 = 0)
   \<and> (\<exists>A c. coo_to_csr gap_sorted 4 2 = Inr A \<and> row_ptr A ! 3 = row_ptr A ! (3 + 1)
           \<and> multiply_sequential A [1, 1] = Inr c \<and> multiply_parallel [3, 1, 0, 2] A [1, 1] = Inr c
           \<and> c ! 3 = 0)"
proof -
  have h1: "valid_input gap_triplets 4 2" by code_simp
  have h2: "std_sort_result gap_triplets gap_sorted" by code_simp
  have h3: "int 1 < (4::int)" "int 3 < (4::int)" by simp_all
  have h4: "\<forall>t\<in>set gap_triplets. row t \<noteq> int 1" "\<forall>t\<in>set gap_triplets. row t \<noteq> int 3"
    by code_simp+
  have h5: "int (length [1, 1 :: real]) = 2" by simp
  have h6: "omp_for_order 4 [3, 1, 0, 2]" by code_simp
  have h7: "4 < INT_MAX" by (simp add: INT_MAX_def)
  show ?thesis
    unfolding list_all_iff
    using h1 h2 h3 h4 h5 h6 h7
      empty_row_gives_zero [OF h1 h7 h2 h3(1) h4(1) h5 h6]
      empty_row_gives_zero [OF h1 h7 h2 h3(2) h4(2) h5 h6]
    by blast
qed

text \<open>
  Claim C8. Both kernels are deterministic and idempotent. A second run of the
  sequential kernel on the output of the first returns the same output; for the
  parallel kernel the same holds whatever the iteration orders of the two runs are, and
  two runs on the same buffer with different orders return the same output. A call
  leaves the matrix and the input vector as they are.
\<close>

theorem kernels_deterministic_idempotent:
  "(spmv_csr_sequential A v c = Inr c1 \<longrightarrow> spmv_csr_sequential A v c1 = Inr c1)
   \<and> (omp_for_order (rows A) o1 \<and> omp_for_order (rows A) o2
        \<and> spmv_csr_parallel o1 A v c = Inr c1 \<longrightarrow>
          spmv_csr_parallel o2 A v c = Inr c1 \<and> spmv_csr_parallel o2 A v c1 = Inr c1)
   \<and> (call_kernel kern st = Inr st' \<longrightarrow> csr st' = csr st \<and> v_input st' = v_input st)"
proof (intro conjI impI)
  assume "spmv_csr_sequential A v c = Inr c1"
  then have "par_rows A v [0..rows A - 1] c = Inr c1"
    by (simp only: spmv_csr_sequential_def seq_rows_par_rows)
  then have "par_rows A v [0..rows A - 1] c1 = Inr c1"
    by (rule par_rows_idem(2) [OF refl])
  then show "spmv_csr_sequential A v c1 = Inr c1"
    by (simp only: spmv_csr_sequential_def seq_rows_par_rows)
next
  assume h: "omp_for_order (rows A) o1 \<and> omp_for_order (rows A) o2
        \<and> spmv_csr_parallel o1 A v c = Inr c1"
  then have "set o1 = set [0..rows A - 1]" "set o2 = set [0..rows A - 1]"
    by (simp_all only: omp_for_order_set)
  then have s: "set o2 = set o1"
    by (simp only:)
  have p: "par_rows A v o1 c = Inr c1"
    using h by (simp add: spmv_csr_parallel_def)
  show "spmv_csr_parallel o2 A v c = Inr c1"
    unfolding spmv_csr_parallel_def by (rule par_rows_idem(1) [OF s p])
  show "spmv_csr_parallel o2 A v c1 = Inr c1"
    unfolding spmv_csr_parallel_def by (rule par_rows_idem(2) [OF s p])
next
  assume h: "call_kernel kern st = Inr st'"
  then show "csr st' = csr st"
    by (auto simp: call_kernel_def split: sum.splits)
  from h show "v_input st' = v_input st"
    by (auto simp: call_kernel_def split: sum.splits)
qed

theorem kernels_deterministic_idempotent_witness:
  "spmv_csr_sequential scenario_matrix [1, 1] [7, 7] = Inr [3, 3]
   \<and> spmv_csr_sequential scenario_matrix [1, 1] [3, 3] = Inr [3, 3]
   \<and> omp_for_order (rows scenario_matrix) [1, 0] \<and> omp_for_order (rows scenario_matrix) [0, 1]
   \<and> spmv_csr_parallel [1, 0] scenario_matrix [1, 1] [7, 7] = Inr [3, 3]
   \<and> spmv_csr_parallel [0, 1] scenario_matrix [1, 1] [7, 7] = Inr [3, 3]
   \<and> spmv_csr_parallel [0, 1] scenario_matrix [1, 1] [3, 3] = Inr [3, 3]
   \<and> call_kernel (\<lambda>k. spmv_csr_sequential)
        \<lparr>csr = scenario_matrix, v_input = [1, 1], c_output = [7, 7], times_ms = [], calls = 0,
         ticks = 0\<rparr> =
       Inr \<lparr>csr = scenario_matrix, v_input = [1, 1], c_output = [3, 3], times_ms = [], calls = 1,
            ticks = 0\<rparr>
   \<and> csr \<lparr>csr = scenario_matrix, v_input = [1, 1], c_output = [3, 3 :: real], times_ms = [],
           calls = 1, ticks = 0\<rparr> = scenario_matrix
   \<and> v_input \<lparr>csr = scenario_matrix, v_input = [1, 1], c_output = [3, 3 :: real], times_ms = [],
           calls = 1, ticks = 0\<rparr> = [1, 1]"
proof -
  have h1: "spmv_csr_sequential scenario_matrix [1, 1] [7, 7] = Inr [3, 3]"
    by code_simp
  have h2: "omp_for_order (rows scenario_matrix) [1, 0]" "omp_for_order (rows scenario_matrix) [0, 1]"
    by code_simp+
  have h3: "spmv_csr_parallel [1, 0] scenario_matrix [1, 1] [7, 7] = Inr [3, 3]"
    by code_simp
  have h4: "call_kernel (\<lambda>k. spmv_csr_sequential)
        \<lparr>csr = scenario_matrix, v_input = [1, 1], c_output = [7, 7], times_ms = [], calls = 0,
         ticks = 0\<rparr> =
       Inr \<lparr>csr = scenario_matrix, v_input = [1, 1], c_output = [3, 3], times_ms = [], calls = 1,
            ticks = 0\<rparr>"
    by (simp add: call_kernel_def h1)
  show ?thesis
    using h1 h2 h3 h4
      kernels_deterministic_idempotent [of scenario_matrix "[1, 1]" "[7, 7]" "[3, 3]"
        "[1, 0]" "[0, 1]" "\<lambda>k. spmv_csr_sequential"
        "\<lparr>csr = scenario_matrix, v_input = [1, 1], c_output = [7, 7], times_ms = [], calls = 0,
          ticks = 0\<rparr>"
        "\<lparr>csr = scenario_matrix, v_input = [1, 1], c_output = [3, 3], times_ms = [], calls = 1,
          ticks = 0\<rparr>"]
    by simp
qed

text \<open>
  Claim C9. For any number \<open>n\<close> of timed runs, the benchmark fills one input vector of
  length \<open>cols\<close> with the first \<open>cols\<close> values of \<open>dist(gen)\<close>, which lie between the
  doubles \<open>-1000\<close> and \<open>1000\<close>; it invokes the kernel \<open>1 + n\<close> times in strict sequence on
  the matrix and this vector, the first invocation on the zeroed output and each later
  one on the output of the one before, so that the output at the end is that of
  \<open>call_seq\<close> over the invocations \<open>0, ..., n\<close>; the first invocation is not timed; and it
  returns \<open>n\<close> durations, that of timed run \<open>r\<close> at index \<open>r\<close>, each taken between the
  two clock readings around its invocation. The kernel is the sequential or the parallel
  one on a matrix that satisfies the invariants, or any kernel that returns an output of
  length \<open>rows\<close>. \<open>main\<close> runs the benchmark with \<open>n = NUM_RUNS = 10\<close>.
\<close>

theorem benchmark_warmup_then_timed_runs:
  fixes to_double :: "real \<Rightarrow> 'd::{zero,plus,times,ord}"
  assumes "0 \<le> rows A" "0 \<le> cols A" "0 \<le> n"
    and "\<forall>k. 0 \<le> canon k \<and> canon k < 1"
    and "\<forall>x y. x \<le> y \<longrightarrow> to_double x \<le> to_double y"
    and "kern = (\<lambda>k. spmv_csr_sequential) \<and> csr_invariants A
         \<or> kern = (\<lambda>k. spmv_csr_parallel (orders k)) \<and> csr_invariants A
             \<and> (\<forall>k. omp_for_order (rows A) (orders k))
         \<or> kernel_total kern A (map (dist_gen to_double canon) [0..<nat (cols A)]) (nat (rows A))"
  shows "\<exists>st. benchmark kern to_double canon wtime elapsed_ms n A = Inr st
            \<and> csr st = A
            \<and> v_input st = map (dist_gen to_double canon) [0..<nat (cols A)]
            \<and> int (length (v_input st)) = cols A
            \<and> list_all (\<lambda>x. to_double (- 1000) \<le> x \<and> x \<le> to_double 1000) (v_input st)
            \<and> calls st = 1 + nat n
            \<and> call_seq kern A (v_input st) [0..<1 + nat n] (replicate (nat (rows A)) 0) =
                Inr (c_output st)
            \<and> times_ms st = map (\<lambda>r. elapsed_ms (wtime (2 * r)) (wtime (2 * r + 1))) [0..<nat n]
            \<and> int (length (times_ms st)) = n"
proof -
  let ?v = "map (dist_gen to_double canon) [0..<nat (cols A)]"
  have l: "int (length ?v) = cols A"
    using assms(2) by simp
  have "kernel_total kern A ?v (nat (rows A))"
    using assms(6)
  proof (elim disjE conjE)
    assume k: "kern = (\<lambda>k. spmv_csr_sequential)" and i: "csr_invariants A"
    show ?thesis
      unfolding k by (rule sequential_kernel_total [OF i l])
  next
    assume k: "kern = (\<lambda>k. spmv_csr_parallel (orders k))" and i: "csr_invariants A"
      and o: "\<forall>k. omp_for_order (rows A) (orders k)"
    show ?thesis
      unfolding k by (rule parallel_kernel_total [OF i l o])
  qed
  from benchmark_result [OF assms(3,1,2) this, of wtime elapsed_ms]
  obtain st where st: "benchmark kern to_double canon wtime elapsed_ms n A = Inr st" "csr st = A"
      "v_input st = ?v" "calls st = 1 + nat n"
      "call_seq kern A ?v [0..<1 + nat n] (replicate (nat (rows A)) 0) = Inr (c_output st)"
      "times_ms st = map (\<lambda>r. elapsed_ms (wtime (2 * r)) (wtime (2 * r + 1))) [0..<nat n]"
    by (elim exE conjE)
  have "int (length (v_input st)) = cols A"
    using l by (simp only: st(3))
  moreover have "list_all (\<lambda>x. to_double (- 1000) \<le> x \<and> x \<le> to_double 1000) (v_input st)"
    unfolding st(3) list_all_iff
  proof
    fix x assume "x \<in> set ?v"
    then obtain k where "x = dist_gen to_double canon k" by auto
    then show "to_double (- 1000) \<le> x \<and> x \<le> to_double 1000"
      using dist_gen_range [OF spec [OF assms(4)] assms(5)] by simp
  qed
  moreover have "int (length (times_ms st)) = n"
    using assms(3) by (simp add: st(6))
  moreover have "call_seq kern A (v_input st) [0..<1 + nat n] (replicate (nat (rows A)) 0) =
                   Inr (c_output st)"
    using st(5) by (simp only: st(3))
  ultimately show ?thesis
    using st(1,2,3,4,6) by blast
qed

theorem benchmark_warmup_then_timed_runs_witness:
  "0 \<le> rows scenario_matrix \<and> 0 \<le> cols scenario_matrix \<and> 0 \<le> NUM_RUNS
   \<and> (\<forall>k::nat. 0 \<le> (501 / 1000 :: real) \<and> (501 / 1000 :: real) < 1)
   \<and> csr_invariants scenario_matrix
   \<and> (\<forall>k::nat. omp_for_order (rows scenario_matrix) [1, 0])
   \<and> (\<exists>st. benchmark (\<lambda>k. spmv_csr_sequential) (\<lambda>x. x) (\<lambda>k. 501 / 1000) (\<lambda>k. real k)
              (\<lambda>a b. (b - a) * 1000) NUM_RUNS scenario_matrix = Inr st
          \<and> csr st = scenario_matrix \<and> v_input st = [2, 2] \<and> c_output st = [6, 6]
          \<and> calls st = 11 \<and> length (times_ms st) = 10)
   \<and> (\<exists>st. benchmark (\<lambda>k. spmv_csr_parallel [1, 0]) (\<lambda>x. x) (\<lambda>k. 501 / 1000) (\<lambda>k. real k)
              (\<lambda>a b. (b - a) * 1000) NUM_RUNS scenario_matrix = Inr st
          \<and> csr st = scenario_matrix \<and> v_input st = [2, 2] \<and> c_output st = [6, 6]
          \<and> calls st = 11 \<and> length (times_ms st) = 10)
   \<and> (\<exists>st. benchmark (\<lambda>k A v c. Inr (map (\<lambda>x. x + 1) c)) (\<lambda>x. x) (\<lambda>k. 501 / 1000)
              (\<lambda>k. real k) (\<lambda>a b. (b - a) * 1000) NUM_RUNS scenario_matrix = Inr st
          \<and> csr st = scenario_matrix \<and> v_input st = [2, 2] \<and> c_output st = [11, 11]
          \<and> calls st = 11 \<and> length (times_ms st) = 10)"
proof -
  have h0: "0 \<le> rows scenario_matrix" "0 \<le> cols scenario_matrix"
    by (simp_all add: scenario_matrix_def)
  have h1: "csr_invariants scenario_matrix" by code_simp
  have h3: "0 \<le> NUM_RUNS" by (simp add: NUM_RUNS_def)
  have "omp_for_order (rows scenario_matrix) [1, 0]" by code_simp
  then have h4: "\<forall>k::nat. omp_for_order (rows scenario_matrix) [1, 0]" by simp
  have h5: "\<forall>k::nat. 0 \<le> (501 / 1000 :: real) \<and> (501 / 1000 :: real) < 1" by simp
  have h6: "\<forall>x y::real. x \<le> y \<longrightarrow> x \<le> y" by simp
  have c: "map (dist_gen (\<lambda>x. x) (\<lambda>k. 501 / 1000)) [0..<nat (cols scenario_matrix)] = [2, 2 :: real]"
    by code_simp
  have n: "NUM_RUNS = 10" by (simp add: NUM_RUNS_def)
  have r: "replicate (nat (rows scenario_matrix)) (0::real) = [0, 0]"
    by code_simp
  have u: "[0..<1 + nat NUM_RUNS] = [0, 1, 2, 3, 4, 5, 6, 7, 8, 9, 10]"
    by code_simp
  have e1: "call_seq (\<lambda>k. spmv_csr_sequential) scenario_matrix [2, 2]
              [0, 1, 2, 3, 4, 5, 6, 7, 8, 9, 10] [0, 0] = Inr [6, 6]"
    by code_simp
  have e2: "call_seq (\<lambda>k. spmv_csr_parallel [1, 0]) scenario_matrix [2, 2]
              [0, 1, 2, 3, 4, 5, 6, 7, 8, 9, 10] [0, 0] = Inr [6, 6]"
    by code_simp
  have e3: "call_seq (\<lambda>k A v c. Inr (map (\<lambda>x. x + 1) c)) scenario_matrix [2, 2]
              [0, 1, 2, 3, 4, 5, 6, 7, 8, 9, 10] [0, 0 :: real] = Inr [11, 11]"
    by code_simp
  have k3: "kernel_total (\<lambda>k A v c. Inr (map (\<lambda>x. x + 1) c)) scenario_matrix
              (map (dist_gen (\<lambda>x. x) (\<lambda>k. 501 / 1000)) [0..<nat (cols scenario_matrix)])
              (nat (rows scenario_matrix))"
    by (simp add: kernel_total_def)
  note t = benchmark_warmup_then_timed_runs [where A = scenario_matrix and n = NUM_RUNS
      and orders = "\<lambda>k. [1, 0]" and canon = "\<lambda>k. 501 / 1000" and to_double = "\<lambda>x::real. x"
      and wtime = "\<lambda>k. real k" and elapsed_ms = "\<lambda>a b. (b - a) * 1000", OF h0 h3 h5 h6]
  have s: "\<exists>st. benchmark (\<lambda>k. spmv_csr_sequential) (\<lambda>x. x) (\<lambda>k. 501 / 1000) (\<lambda>k. real k)
              (\<lambda>a b. (b - a) * 1000) NUM_RUNS scenario_matrix = Inr st
          \<and> csr st = scenario_matrix \<and> v_input st = [2, 2] \<and> c_output st = [6, 6]
          \<and> calls st = 11 \<and> length (times_ms st) = 10"
  proof -
    from t [where kern = "\<lambda>k. spmv_csr_sequential", OF disjI1 [OF conjI [OF refl h1]]]
    obtain st where b: "benchmark (\<lambda>k. spmv_csr_sequential) (\<lambda>x. x) (\<lambda>k. 501 / 1000) (\<lambda>k. real k)
              (\<lambda>a b. (b - a) * 1000) NUM_RUNS scenario_matrix = Inr st"
      and f: "csr st = scenario_matrix"
        "v_input st = map (dist_gen (\<lambda>x. x) (\<lambda>k. 501 / 1000)) [0..<nat (cols scenario_matrix)]"
        "calls st = 1 + nat NUM_RUNS"
      and cs: "call_seq (\<lambda>k. spmv_csr_sequential) scenario_matrix (v_input st) [0..<1 + nat NUM_RUNS]
                 (replicate (nat (rows scenario_matrix)) 0) = Inr (c_output st)"
      and tm: "int (length (times_ms st)) = NUM_RUNS"
      by (elim exE conjE)
    have v: "v_input st = [2, 2]"
      using f(2) by (simp only: c)
    have "Inr (c_output st) = (Inr [6, 6] :: fault + real list)"
      using cs by (simp only: v u r e1)
    then have o: "c_output st = [6, 6]"
      by (simp only: sum.inject)
    have "calls st = 11" "length (times_ms st) = 10"
      using f(3) tm by (simp_all add: n)
    with b f(1) v o show ?thesis
      by blast
  qed
  have p: "\<exists>st. benchmark (\<lambda>k. spmv_csr_parallel [1, 0]) (\<lambda>x. x) (\<lambda>k. 501 / 1000) (\<lambda>k. real k)
              (\<lambda>a b. (b - a) * 1000) NUM_RUNS scenario_matrix = Inr st
          \<and> csr st = scenario_matrix \<and> v_input st = [2, 2] \<and> c_output st = [6, 6]
          \<and> calls st = 11 \<and> length (times_ms st) = 10"
  proof -
    from t [where kern = "\<lambda>k. spmv_csr_parallel [1, 0]", OF disjI2 [OF disjI1 [OF conjI [OF refl conjI [OF h1 h4]]]]]
    obtain st where b: "benchmark (\<lambda>k. spmv_csr_parallel [1, 0]) (\<lambda>x. x) (\<lambda>k. 501 / 1000) (\<lambda>k. real k)
              (\<lambda>a b. (b - a) * 1000) NUM_RUNS scenario_matrix = Inr st"
      and f: "csr st = scenario_matrix"
        "v_input st = map (dist_gen (\<lambda>x. x) (\<lambda>k. 501 / 1000)) [0..<nat (cols scenario_matrix)]"
        "calls st = 1 + nat NUM_RUNS"
      and cs: "call_seq (\<lambda>k. spmv_csr_parallel [1, 0]) scenario_matrix (v_input st) [0..<1 + nat NUM_RUNS]
                 (replicate (nat (rows scenario_matrix)) 0) = Inr (c_output st)"
      and tm: "int (length (times_ms st)) = NUM_RUNS"
      by (elim exE conjE)
    have v: "v_input st = [2, 2]"
      using f(2) by (simp only: c)
    have "Inr (c_output st) = (Inr [6, 6] :: fault + real list)"
      using cs by (simp only: v u r e2)
    then have o: "c_output st = [6, 6]"
      by (simp only: sum.inject)
    have "calls st = 11" "length (times_ms st) = 10"
      using f(3) tm by (simp_all add: n)
    with b f(1) v o show ?thesis
      by blast
  qed
  have q: "\<exists>st. benchmark (\<lambda>k A v c. Inr (map (\<lambda>x. x + 1) c)) (\<lambda>x. x) (\<lambda>k. 501 / 1000) (\<lambda>k. real k)
              (\<lambda>a b. (b - a) * 1000) NUM_RUNS scenario_matrix = Inr st
          \<and> csr st = scenario_matrix \<and> v_input st = [2, 2] \<and> c_output st = [11, 11]
          \<and> calls st = 11 \<and> length (times_ms st) = 10"
  proof -
    from t [where kern = "\<lambda>k A v c. Inr (map (\<lambda>x. x + 1) c)", OF disjI2 [OF disjI2 [OF k3]]]
    obtain st where b: "benchmark (\<lambda>k A v c. Inr (map (\<lambda>x. x + 1) c)) (\<lambda>x. x) (\<lambda>k. 501 / 1000) (\<lambda>k. real k)
              (\<lambda>a b. (b - a) * 1000) NUM_RUNS scenario_matrix = Inr st"
      and f: "csr st = scenario_matrix"
        "v_input st = map (dist_gen (\<lambda>x. x) (\<lambda>k. 501 / 1000)) [0..<nat (cols scenario_matrix)]"
        "calls st = 1 + nat NUM_RUNS"
      and cs: "call_seq (\<lambda>k A v c. Inr (map (\<lambda>x. x + 1) c)) scenario_matrix (v_input st) [0..<1 + nat NUM_RUNS]
                 (replicate (nat (rows scenario_matrix)) 0) = Inr (c_output st)"
      and tm: "int (length (times_ms st)) = NUM_RUNS"
      by (elim exE conjE)
    have v: "v_input st = [2, 2]"
      using f(2) by (simp only: c)
    have "Inr (c_output st) = (Inr [11, 11] :: fault + real list)"
      using cs by (simp only: v u r e3)
    then have o: "c_output st = [11, 11]"
      by (simp only: sum.inject)
    have "calls st = 11" "length (times_ms st) = 10"
      using f(3) tm by (simp_all add: n)
    with b f(1) v o show ?thesis
      by blast
  qed
  show ?thesis
    using h0 h1 h3 h4 s p q by simp
qed

text \<open>
  Claim C10. With positive dimensions, \<open>rows\<close> less than \<open>INT_MAX\<close> so that \<open>rows + 1\<close>
  is an \<open>int\<close>, and no triplet, the conversion succeeds; the matrix has \<open>rows + 1\<close> row
  pointers, all 0, and no column index and no value; both kernels, on any vector of
  length \<open>cols\<close>, return \<open>rows\<close> zeros.
\<close>

theorem empty_triplets:
  assumes "0 < n_rows" "n_rows < INT_MAX" "0 < n_cols" "int (length v) = n_cols"
    and "omp_for_order n_rows order"
  shows "\<exists>E. E = \<lparr>rows = n_rows, cols = n_cols, nnz = 0,
                  row_ptr = replicate (nat n_rows + 1) 0, col_ind = [], vals = []\<rparr>
       \<and> build [] n_rows n_cols = Inr E
       \<and> (\<forall>s. std_sort_result [] s \<longrightarrow> coo_to_csr s n_rows n_cols = Inr E)
       \<and> multiply_sequential E v = Inr (replicate (nat n_rows) 0)
       \<and> multiply_parallel order E v = Inr (replicate (nat n_rows) 0)"
proof -
  let ?E = "\<lparr>rows = n_rows, cols = n_cols, nnz = 0, row_ptr = replicate (nat n_rows + 1) 0,
             col_ind = [], vals = [] :: 'a list\<rparr>"
  have vi: "valid_input ([] :: 'a Triplet list) n_rows n_cols"
    using assms(1,3) by (simp add: valid_input_def)
  have ss: "std_sort_result ([] :: 'a Triplet list) []"
    by (simp add: std_sort_result_def)
  have "map (row_start ([] :: 'a Triplet list)) [0..<nat (n_rows + 1)] = replicate (nat n_rows + 1) 0"
    using assms(1) by (intro nth_equalityI) (auto simp: row_start_def)
  then have E: "csr_of ([] :: 'a Triplet list) n_rows n_cols = ?E"
    by (simp add: csr_of_def)
  have c: "coo_to_csr ([] :: 'a Triplet list) n_rows n_cols = Inr ?E"
    using coo_to_csr_valid [OF vi ss assms(2)] E by simp
  then have b: "build ([] :: 'a Triplet list) n_rows n_cols = Inr ?E"
    by (simp add: build_def sort_triplets_def)
  have u: "\<forall>s. std_sort_result ([] :: 'a Triplet list) s \<longrightarrow>
             coo_to_csr s n_rows n_cols = Inr ?E"
    using c by (simp add: std_sort_result_def)
  have inv: "csr_invariants ?E"
    using csr_of_invariants [OF vi ss] E by simp
  have "map (row_dot ?E v) [0..<nat n_rows] = replicate (nat n_rows) 0"
    by (intro nth_equalityI) (auto simp: row_dot_def nth_Cons')
  then have sq: "multiply_sequential ?E v = Inr (replicate (nat n_rows) 0)"
    using multiply_sequential_valid [OF inv, of v] assms(4) by simp
  have "omp_for_order (rows ?E) order" using assms(5) by simp
  then have "multiply_parallel order ?E v = multiply_sequential ?E v"
    by (rule multiply_parallel_sequential)
  then have pr: "multiply_parallel order ?E v = Inr (replicate (nat n_rows) 0)"
    using sq by simp
  from b u sq pr show ?thesis by blast
qed

theorem empty_triplets_witness:
  "(0::int) < 3 \<and> 3 < INT_MAX \<and> (0::int) < 2 \<and> int (length [7, 8 :: real]) = 2
   \<and> omp_for_order 3 [2, 0, 1]
   \<and> std_sort_result ([] :: real Triplet list) []
   \<and> (\<exists>E. E = \<lparr>rows = 3, cols = 2, nnz = 0,
                  row_ptr = replicate (nat 3 + 1) 0, col_ind = [], vals = []\<rparr>
       \<and> build [] 3 2 = Inr E
       \<and> coo_to_csr [] 3 2 = Inr E
       \<and> multiply_sequential E [7, 8 :: real] = Inr (replicate (nat 3) 0)
       \<and> multiply_parallel [2, 0, 1] E [7, 8] = Inr (replicate (nat 3) 0))"
proof -
  have h1: "(0::int) < 3" "3 < INT_MAX" "(0::int) < 2" "int (length [7, 8 :: real]) = 2"
    by (simp_all add: INT_MAX_def)
  have h2: "omp_for_order 3 [2, 0, 1]" by code_simp
  have h3: "std_sort_result ([] :: real Triplet list) []" by code_simp
  show ?thesis
    using h1 h2 h3 empty_triplets [OF h1 h2] by blast
qed

end
